theory Spec2Isabelle
  imports Main
begin

section \<open>Dates, times and numbers of the Python runtime\<close>

text \<open>
  A \<^verbatim>\<open>datetime\<close> is modelled by the number of microseconds since midnight of the
  day with proleptic Gregorian ordinal 0, a \<^verbatim>\<open>timedelta\<close> by a number of
  microseconds.  Addition and subtraction are then exact, as in Python.  A
  \<^verbatim>\<open>datetime\<close> lies between 0001-01-01 and 9999-12-31, ordinals 1 and 3652059, and
  adding a \<^verbatim>\<open>timedelta\<close> to it raises OverflowError when the sum does not.
\<close>

type_synonym datetime = int
type_synonym timedelta = int

definition days :: "int \<Rightarrow> timedelta" where
  \<comment> \<open>\<^verbatim>\<open>timedelta(days=n)\<close>\<close>
  "days n = n * 86400000000"

definition date_of :: "datetime \<Rightarrow> int" where
  \<comment> \<open>the calendar day that \<^verbatim>\<open>%Y-%m-%d\<close> prints, as its ordinal\<close>
  "date_of t = t div 86400000000"

definition in_range :: "datetime \<Rightarrow> bool" where
  "in_range t = (1 \<le> date_of t \<and> date_of t \<le> 3652059)"

definition td_half :: "timedelta \<Rightarrow> timedelta" where
  \<comment> \<open>\<^verbatim>\<open>td / 2\<close>: the quotient rounded to the nearest microsecond, ties to even\<close>
  "td_half a = (let q = a div 2; r = a mod 2 in
                if r = 1 \<and> q mod 2 = 1 then q + 1 else q)"

definition is_leap :: "int \<Rightarrow> bool" where
  "is_leap y = (y mod 4 = 0 \<and> (y mod 100 \<noteq> 0 \<or> y mod 400 = 0))"

definition days_before_year :: "int \<Rightarrow> int" where
  "days_before_year year = (let y = year - 1 in y * 365 + y div 4 - y div 100 + y div 400)"

definition days_before_month :: "int \<Rightarrow> int \<Rightarrow> int" where
  "days_before_month year month =
     [0, 0, 31, 59, 90, 120, 151, 181, 212, 243, 273, 304, 334] ! nat month
       + (if month > 2 \<and> is_leap year then 1 else 0)"

definition ymd2ord :: "int \<Rightarrow> int \<Rightarrow> int \<Rightarrow> int" where
  \<comment> \<open>the ordinal of a calendar date; months 1 to 12 only\<close>
  "ymd2ord year month day = days_before_year year + days_before_month year month + day"

definition mk_datetime :: "int \<Rightarrow> int \<Rightarrow> int \<Rightarrow> datetime" where
  \<comment> \<open>\<^verbatim>\<open>datetime(year, month, day)\<close>, midnight of that day\<close>
  "mk_datetime year month day = days (ymd2ord year month day)"

definition ceil_div :: "int \<Rightarrow> int \<Rightarrow> int" where
  \<comment> \<open>\<^verbatim>\<open>math.ceil(a / b)\<close> for \<open>b > 0\<close>; the float quotient is exact enough for
      the counts a search reports (below \<open>2^53\<close>)\<close>
  "ceil_div a b = - ((- a) div b)"

definition is_space :: "char \<Rightarrow> bool" where
  "is_space c = (c \<in> set [CHR '' '', CHR 0x09, CHR 0x0A, CHR 0x0B, CHR 0x0C, CHR 0x0D])"

definition is_digit :: "char \<Rightarrow> bool" where
  "is_digit c = (c \<in> set ''0123456789'')"

definition strip :: "string \<Rightarrow> string" where
  "strip s = rev (dropWhile is_space (rev (dropWhile is_space s)))"

fun underscores_ok :: "string \<Rightarrow> bool" where
  \<comment> \<open>an underscore stands between two digits only\<close>
  "underscores_ok [] = True"
| "underscores_ok [c] = is_digit c"
| "underscores_ok (c # d # cs) =
     (if is_digit c then (is_digit d \<or> d = CHR ''_'') \<and> underscores_ok (d # cs)
      else c = CHR ''_'' \<and> is_digit d \<and> underscores_ok (d # cs))"

definition digits_value :: "string \<Rightarrow> int" where
  "digits_value ds = foldl (\<lambda>acc c. 10 * acc + (of_char c - 48)) 0 ds"

definition py_int :: "string \<Rightarrow> int option" where
  \<comment> \<open>\<^verbatim>\<open>int(s)\<close> on an ASCII string; None stands for ValueError\<close>
  "py_int s =
     (let t = strip s;
          neg = (t \<noteq> [] \<and> hd t = CHR ''-'');
          u = (if t \<noteq> [] \<and> (hd t = CHR ''-'' \<or> hd t = CHR ''+'') then tl t else t)
      in if u \<noteq> [] \<and> is_digit (hd u) \<and> underscores_ok u
         then Some ((if neg then - 1 else 1) * digits_value (filter is_digit u))
         else None)"

section \<open>The data the crawlers exchange with the outside\<close>

record repo_item =
  owner_login :: string
  name :: string
  full_name :: string
  clone_url :: string
  default_branch :: "string option"
  topics :: "string list option"

text \<open>
  The search parameters.  The text \<^verbatim>\<open>created:A..B\<close> of the query is kept as the
  two days it names.
\<close>

record search_params =
  q_query :: string
  q_from :: int
  q_to :: int
  per_page :: int
  sort_order :: "(string \<times> string) option"
  page :: "int option"

datatype request = Search search_params | Download string

record response =
  status_code :: int
  x_ratelimit_remaining :: "string option"
  x_ratelimit_reset :: "string option"
  error_text :: string
  total_count :: "int option"
  items :: "repo_item list option"

datatype pyexn = PyExn (exn_class: string) (exn_str: string)

datatype reply = Raises pyexn | Reply response

definition dt_add :: "datetime \<Rightarrow> timedelta \<Rightarrow> pyexn + datetime" where
  \<comment> \<open>\<^verbatim>\<open>t + d\<close> for a datetime \<open>t\<close> and a timedelta \<open>d\<close>\<close>
  "dt_add t d =
     (if in_range (t + d) then Inr (t + d)
      else Inl (PyExn ''OverflowError'' ''date value out of range''))"

datatype event =
    Http request reply
  | Sleep int
  | CsvRow "string list"
  | Save string "pyexn option"
  | Yielded repo_item

text \<open>
  An item of a search answer is taken as a record with the fields the crawlers read, so
  that reading a field cannot fail; an answer's body is taken as parsed.  Messages written
  to the log or the console are left out, and writing a row to the record sink is taken
  not to fail.
\<close>

text \<open>
  The world is the history of what has happened; the environment answers a request, reads
  the clock and stores a response body, each as a function of the history so far.  No
  function of the crawlers adds \<open>Yielded\<close>: it is for a loop body that notes each item
  it is given.
\<close>

type_synonym world = "event list"

record env =
  srv :: "world \<Rightarrow> request \<Rightarrow> reply"
  clock :: "world \<Rightarrow> int"
  store :: "world \<Rightarrow> string \<Rightarrow> response \<Rightarrow> pyexn option"

type_synonym 'a result = "(pyexn + 'a) \<times> world"

definition session_get :: "env \<Rightarrow> request \<Rightarrow> world \<Rightarrow> reply \<times> world" where
  "session_get E rq w = (let r = srv E w rq in (r, w @ [Http rq r]))"

definition raise_for_status :: "response \<Rightarrow> pyexn option" where
  "raise_for_status resp =
     (if 400 \<le> status_code resp \<and> status_code resp < 600
      then Some (PyExn ''HTTPError'' (error_text resp)) else None)"

definition json_total_count :: "response \<Rightarrow> int" where
  \<comment> \<open>\<^verbatim>\<open>resp.json().get("total_count", 0)\<close>\<close>
  "json_total_count resp = (case total_count resp of None \<Rightarrow> 0 | Some n \<Rightarrow> n)"

definition item_topics :: "repo_item \<Rightarrow> string list" where
  \<comment> \<open>\<^verbatim>\<open>item.get("topics", [])\<close>\<close>
  "item_topics item = (case topics item of None \<Rightarrow> [] | Some ts \<Rightarrow> ts)"

definition value_error :: "string \<Rightarrow> pyexn" where
  \<comment> \<open>what \<^verbatim>\<open>int(s)\<close> raises on a string that is no number\<close>
  "value_error s = PyExn ''ValueError'' (''invalid literal for int() with base 10: '' @ s)"

definition json_items :: "response \<Rightarrow> repo_item list" where
  \<comment> \<open>\<^verbatim>\<open>data.get("items", [])\<close>\<close>
  "json_items resp = (case items resp of None \<Rightarrow> [] | Some xs \<Rightarrow> xs)"

section \<open>crawler\_refactored.py\<close>

definition TOPIC :: string where "TOPIC = ''microservices''"
definition PER_PAGE :: int where "PER_PAGE = 100"
definition DELAY_BETWEEN_PAGES :: int where "DELAY_BETWEEN_PAGES = 5"
definition MAX_RESULTS_PER_QUERY :: int where "MAX_RESULTS_PER_QUERY = 1000"
definition DATE_STEP_DAYS :: int where "DATE_STEP_DAYS = 182"

definition rate_limit_sleep :: "env \<Rightarrow> response \<Rightarrow> world \<Rightarrow> unit result" where
  "rate_limit_sleep E resp w =
     (if status_code resp = 403 then
        (case x_ratelimit_reset resp of
           None \<Rightarrow> (Inr (), w)
         | Some reset \<Rightarrow>
             if reset = [] then (Inr (), w)
             else (case py_int reset of
                     None \<Rightarrow> (Inl (value_error reset), w)
                   | Some reset_ts \<Rightarrow>
                       (let wait = max 0 (reset_ts - clock E w + 3)
                        in (Inr (), w @ [Sleep wait]))))
      else (Inr (), w))"

definition count_params :: "datetime \<Rightarrow> datetime \<Rightarrow> search_params" where
  "count_params start end =
     \<lparr>q_query = ''topic:'' @ TOPIC, q_from = date_of start, q_to = date_of end,
      per_page = 1, sort_order = None, page = None\<rparr>"

definition checked_get :: "env \<Rightarrow> request \<Rightarrow> world \<Rightarrow> response result" where
  \<comment> \<open>the three lines \<^verbatim>\<open>resp = SESSION.get(..); rate_limit_sleep(resp);
      resp.raise_for_status()\<close> that every request of this file goes through\<close>
  "checked_get E rq w =
     (case session_get E rq w of
        (Raises e, w1) \<Rightarrow> (Inl e, w1)
      | (Reply resp, w1) \<Rightarrow>
          (case rate_limit_sleep E resp w1 of
             (Inl e, w2) \<Rightarrow> (Inl e, w2)
           | (Inr _, w2) \<Rightarrow>
               (case raise_for_status resp of
                  Some e \<Rightarrow> (Inl e, w2)
                | None \<Rightarrow> (Inr resp, w2))))"

definition search_count :: "env \<Rightarrow> datetime \<Rightarrow> datetime \<Rightarrow> world \<Rightarrow> int result" where
  "search_count E start end w =
     (case checked_get E (Search (count_params start end)) w of
        (Inl e, w1) \<Rightarrow> (Inl e, w1)
      | (Inr resp, w1) \<Rightarrow> (Inr (json_total_count resp), w1))"

text \<open>
  The recursion of \<^verbatim>\<open>split_window_if_needed\<close> has no bound of its own: the first
  argument is the number of nested calls still allowed, and None is the run that needs more
  (Python ends it with RecursionError).
\<close>

fun split_window_if_needed ::
  "nat \<Rightarrow> env \<Rightarrow> datetime \<Rightarrow> datetime \<Rightarrow> world \<Rightarrow> (datetime \<times> datetime) list result option"
where
  "split_window_if_needed 0 E start end w = None"
| "split_window_if_needed (Suc n) E start end w =
     (case search_count E start end w of
        (Inl e, w1) \<Rightarrow> Some (Inl e, w1)
      | (Inr cnt, w1) \<Rightarrow>
          if cnt \<le> MAX_RESULTS_PER_QUERY then Some (Inr [(start, end)], w1)
          else
            (case dt_add start (td_half (end - start)) of
               Inl e \<Rightarrow> Some (Inl e, w1)
             | Inr midpoint \<Rightarrow>
                 (case split_window_if_needed n E start midpoint w1 of
                    None \<Rightarrow> None
                  | Some (Inl e, w2) \<Rightarrow> Some (Inl e, w2)
                  | Some (Inr left, w2) \<Rightarrow>
                      (case dt_add midpoint (days 1) of
                         Inl e \<Rightarrow> Some (Inl e, w2)
                       | Inr right_start \<Rightarrow>
                           (case split_window_if_needed n E right_start end w2 of
                              None \<Rightarrow> None
                            | Some (Inl e, w3) \<Rightarrow> Some (Inl e, w3)
                            | Some (Inr right, w3) \<Rightarrow>
                                Some (Inr (left @ right), w3))))))"

text \<open>
  A generator is modelled together with the loop that consumes it: \<open>body\<close> is the
  body of the \<^verbatim>\<open>for item in iter_search_pages(..)\<close> loop, run at every
  \<^verbatim>\<open>yield\<close> on the value \<open>acc\<close> of the variables the loop updates.
\<close>

type_synonym 'a consumer = "repo_item \<Rightarrow> 'a \<Rightarrow> world \<Rightarrow> 'a result"

fun yield_items :: "'a consumer \<Rightarrow> repo_item list \<Rightarrow> 'a \<Rightarrow> world \<Rightarrow> 'a result" where
  "yield_items body [] acc w = (Inr acc, w)"
| "yield_items body (item # rest) acc w =
     (case body item acc w of
        (Inl e, w1) \<Rightarrow> (Inl e, w1)
      | (Inr acc1, w1) \<Rightarrow> yield_items body rest acc1 w1)"

definition page_params :: "datetime \<Rightarrow> datetime \<Rightarrow> search_params" where
  "page_params start end =
     \<lparr>q_query = ''topic:'' @ TOPIC, q_from = date_of start, q_to = date_of end,
      per_page = PER_PAGE, sort_order = Some (''stars'', ''desc''), page = None\<rparr>"

fun remaining_pages ::
  "env \<Rightarrow> search_params \<Rightarrow> 'a consumer \<Rightarrow> int list \<Rightarrow> 'a \<Rightarrow> world \<Rightarrow> 'a result"
where
  "remaining_pages E params body [] acc w = (Inr acc, w)"
| "remaining_pages E params body (p # ps) acc w =
     (case checked_get E (Search (params\<lparr>page := Some p\<rparr>)) w of
        (Inl e, w1) \<Rightarrow> (Inl e, w1)
      | (Inr data, w1) \<Rightarrow>
          (case yield_items body (json_items data) acc w1 of
             (Inl e, w2) \<Rightarrow> (Inl e, w2)
           | (Inr acc1, w2) \<Rightarrow>
               remaining_pages E params body ps acc1 (w2 @ [Sleep DELAY_BETWEEN_PAGES])))"

definition page_count :: "int \<Rightarrow> int" where
  \<comment> \<open>\<^verbatim>\<open>math.ceil(min(total_count, MAX_RESULTS_PER_QUERY) / PER_PAGE)\<close>\<close>
  "page_count tc = ceil_div (min tc MAX_RESULTS_PER_QUERY) PER_PAGE"

definition iter_search_pages ::
  "env \<Rightarrow> datetime \<Rightarrow> datetime \<Rightarrow> 'a consumer \<Rightarrow> 'a \<Rightarrow> world \<Rightarrow> 'a result"
where
  "iter_search_pages E start end body acc w =
     (let params = page_params start end in
      case checked_get E (Search params) w of
        (Inl e, w1) \<Rightarrow> (Inl e, w1)
      | (Inr data, w1) \<Rightarrow>
          (let pages = page_count (json_total_count data) in
           case yield_items body (json_items data) acc w1 of
             (Inl e, w2) \<Rightarrow> (Inl e, w2)
           | (Inr acc1, w2) \<Rightarrow> remaining_pages E params body [2..pages] acc1 w2))"

definition zip_download_url :: "string \<Rightarrow> string \<Rightarrow> string" where
  "zip_download_url fname branch =
     ''https://api.github.com/repos/'' @ fname @ ''/zipball/'' @ branch"

definition download_zip :: "env \<Rightarrow> string \<Rightarrow> string \<Rightarrow> string \<Rightarrow> world \<Rightarrow> unit result" where
  \<comment> \<open>opening the file and writing the chunks is the one action \<open>store\<close>\<close>
  "download_zip E fname branch out_path w =
     (case checked_get E (Download (zip_download_url fname branch)) w of
        (Inl e, w1) \<Rightarrow> (Inl e, w1)
      | (Inr r, w1) \<Rightarrow>
          (case store E w1 out_path r of
             Some e \<Rightarrow> (Inl e, w1 @ [Save out_path (Some e)])
           | None \<Rightarrow> (Inr (), w1 @ [Save out_path None])))"

definition OUTPUT_DIR :: string where "OUTPUT_DIR = ''C:/Thesis V3/Output''"

definition replace_slash :: "string \<Rightarrow> string" where
  \<comment> \<open>\<^verbatim>\<open>s.replace('/', '#')\<close>\<close>
  "replace_slash s = map (\<lambda>c. if c = CHR ''/'' then CHR ''#'' else c) s"

fun join :: "string \<Rightarrow> string list \<Rightarrow> string" where
  "join sep [] = []"
| "join sep [x] = x"
| "join sep (x # y # ys) = x @ sep @ join sep (y # ys)"

record crawl_counters =
  period_downloaded :: int
  period_failed :: int
  page_count_estimate :: int
  total_downloaded :: int
  total_failed :: int

definition crawl_item :: "env \<Rightarrow> crawl_counters consumer" where
  \<comment> \<open>the body of the loop over the items, lines 180 to 200\<close>
  "crawl_item E item c w =
     (let owner = owner_login item;
          repo = name item;
          fname = full_name item;
          curl = clone_url item;
          branch = (case default_branch item of
                      None \<Rightarrow> ''main''
                    | Some b \<Rightarrow> if b = [] then ''main'' else b);
          tps = item_topics item;
          zip_name = replace_slash fname @ ''@'' @ branch @ ''.zip'';
          zip_path = OUTPUT_DIR @ ''/'' @ zip_name
      in case download_zip E fname branch zip_path w of
           (Inr _, w1) \<Rightarrow>
             (Inr (c\<lparr>period_downloaded := period_downloaded c + 1,
                     total_downloaded := total_downloaded c + 1\<rparr>),
              w1 @ [CsvRow [owner, repo, fname, curl, branch, join '';'' tps,
                            ''downloaded'', zip_path]])
         | (Inl e, w1) \<Rightarrow>
             (Inr (c\<lparr>period_failed := period_failed c + 1,
                     total_failed := total_failed c + 1\<rparr>),
              w1 @ [CsvRow [owner, repo, fname, curl, branch, join '';'' tps,
                            ''error'', zip_path]]))"

fun crawl_windows ::
  "env \<Rightarrow> (datetime \<times> datetime) list \<Rightarrow> crawl_counters \<Rightarrow> world \<Rightarrow> crawl_counters result"
where
  \<comment> \<open>the loop over the windows of one period, lines 173 to 200\<close>
  "crawl_windows E [] c w = (Inr c, w)"
| "crawl_windows E ((win_start, win_end) # rest) c w =
     (case search_count E win_start win_end w of
        (Inl e, w1) \<Rightarrow> (Inl e, w1)
      | (Inr tc, w1) \<Rightarrow>
          (let c1 = c\<lparr>page_count_estimate := page_count_estimate c + page_count tc\<rparr> in
           case iter_search_pages E win_start win_end (crawl_item E) c1 w1 of
             (Inl e, w2) \<Rightarrow> (Inl e, w2)
           | (Inr c2, w2) \<Rightarrow> crawl_windows E rest c2 w2))"

record summary_row =
  row_start :: int
  row_end :: int
  row_downloaded :: int
  row_pages :: int
  row_failed :: int

text \<open>
  \<^verbatim>\<open>current_end\<close> is computed once in a turn of the loop; where the turn has completed,
  \<^verbatim>\<open>current_start + timedelta(days=DATE_STEP_DAYS)\<close> has not raised, and the loop
  below reads it again to step to the next window.
\<close>

definition crawl_period ::
  "nat \<Rightarrow> env \<Rightarrow> datetime \<Rightarrow> datetime \<Rightarrow> int \<times> int \<Rightarrow> world
     \<Rightarrow> (summary_row \<times> int \<times> int) result option"
where
  \<comment> \<open>one turn of the \<^verbatim>\<open>while\<close> loop, lines 166 to 210; the pair is
      \<^verbatim>\<open>(total_downloaded, total_failed)\<close>\<close>
  "crawl_period n E current_start finish_date totals w =
     (case dt_add current_start (days DATE_STEP_DAYS) of
        Inl e \<Rightarrow> Some (Inl e, w)
      | Inr step_end \<Rightarrow>
          (let current_end = min step_end finish_date in
           case split_window_if_needed n E current_start current_end w of
             None \<Rightarrow> None
           | Some (Inl e, w1) \<Rightarrow> Some (Inl e, w1)
           | Some (Inr windows, w1) \<Rightarrow>
               (case crawl_windows E windows
                       \<lparr>period_downloaded = 0, period_failed = 0, page_count_estimate = 0,
                        total_downloaded = fst totals, total_failed = snd totals\<rparr> w1 of
                  (Inl e, w2) \<Rightarrow> Some (Inl e, w2)
                | (Inr c, w2) \<Rightarrow>
                    Some (Inr (\<lparr>row_start = date_of current_start,
                                row_end = date_of current_end,
                                row_downloaded = period_downloaded c,
                                row_pages = page_count_estimate c,
                                row_failed = period_failed c\<rparr>,
                               total_downloaded c, total_failed c), w2))))"

function crawl_loop ::
  "nat \<Rightarrow> env \<Rightarrow> datetime \<Rightarrow> datetime \<Rightarrow> summary_row list \<Rightarrow> int \<times> int \<Rightarrow> world
     \<Rightarrow> (summary_row list \<times> int \<times> int) result option"
where
  "crawl_loop n E finish_date current_start summary_rows totals w =
     (if current_start \<le> finish_date then
        (case crawl_period n E current_start finish_date totals w of
           None \<Rightarrow> None
         | Some (Inl e, w1) \<Rightarrow> Some (Inl e, w1)
         | Some (Inr (row, totals1), w1) \<Rightarrow>
             (case dt_add (min (current_start + days DATE_STEP_DAYS) finish_date) (days 1) of
                Inl e \<Rightarrow> Some (Inl e, w1)
              | Inr next_start \<Rightarrow>
                  crawl_loop n E finish_date next_start (summary_rows @ [row]) totals1 w1))
      else Some (Inr (summary_rows, totals), w))"
  by pat_completeness auto
termination
  by (relation "measure (\<lambda>(n, E, finish_date, current_start, rest).
        nat (finish_date - current_start + 1))")
     (auto simp: dt_add_def days_def DATE_STEP_DAYS_def split: if_splits)

declare crawl_loop.simps [simp del]

definition csv_header :: "string list" where
  "csv_header = [''Username'', ''Repository Name'', ''Full Name'', ''Clone URL'',
                 ''Default Branch'', ''Topics'', ''Download Status'', ''Zip Path'']"

definition crawl ::
  "nat \<Rightarrow> env \<Rightarrow> datetime \<Rightarrow> datetime \<Rightarrow> world \<Rightarrow> (summary_row list \<times> int \<times> int) result option"
where
  \<comment> \<open>the result is the content of the summary sheet and the two totals of the last log
      line\<close>
  "crawl n E start_date finish_date w =
     crawl_loop n E finish_date start_date [] (0, 0) (w @ [CsvRow csv_header])"

section \<open>Crawler/crawler\_refactored\_with\_SRP.py\<close>

function DateRanges_windows ::
  "nat \<Rightarrow> datetime \<Rightarrow> datetime \<Rightarrow> (datetime \<times> datetime) list \<times> pyexn option"
where
  \<comment> \<open>\<^verbatim>\<open>DateRanges(start, finish, step_days).windows()\<close>, as the list of what it
      yields and the exception that ends it, if one does; \<^verbatim>\<open>end\<close> is
      \<^verbatim>\<open>min(start + self.step, self.finish)\<close> at every test of the loop, set so
      before the loop and at the end of its body\<close>
  "DateRanges_windows step_days finish start =
     (case dt_add start (days (int step_days)) of
        Inl e \<Rightarrow> ([], Some e)
      | Inr step_end \<Rightarrow>
          (let end = min step_end finish in
           if start \<le> finish then
             (case dt_add end (days 1) of
                Inl e \<Rightarrow> ([(start, min end finish)], Some e)
              | Inr next_start \<Rightarrow>
                  (case DateRanges_windows step_days finish next_start of
                     (ws, r) \<Rightarrow> ((start, min end finish) # ws, r)))
           else ([], None)))"
  by pat_completeness auto
termination
  by (relation "measure (\<lambda>(step_days, finish, start). nat (finish - start + 1))")
     (auto simp: dt_add_def days_def split: if_splits)

declare DateRanges_windows.simps [simp del]

text \<open>
  \<^verbatim>\<open>GitHubSearchClient._get\<close> loops while the answer is a throttling one; the first
  argument bounds the number of requests, and None is the run that needs more.
\<close>

definition header_reset :: "response \<Rightarrow> string" where
  \<comment> \<open>\<^verbatim>\<open>resp.headers.get("X-RateLimit-Reset", "0")\<close>\<close>
  "header_reset resp = (case x_ratelimit_reset resp of None \<Rightarrow> ''0'' | Some r \<Rightarrow> r)"

fun GitHubSearchClient_get :: "nat \<Rightarrow> env \<Rightarrow> request \<Rightarrow> world \<Rightarrow> response result option" where
  "GitHubSearchClient_get 0 E rq w = None"
| "GitHubSearchClient_get (Suc n) E rq w =
     (case session_get E rq w of
        (Raises e, w1) \<Rightarrow> Some (Inl e, w1)
      | (Reply resp, w1) \<Rightarrow>
          if status_code resp = 403 \<and> x_ratelimit_remaining resp = Some ''0'' then
            (case py_int (header_reset resp) of
               None \<Rightarrow> Some (Inl (value_error (header_reset resp)), w1)
             | Some reset \<Rightarrow>
                 (let sleep_for = max 0 (reset - clock E w1 + 5)
                  in GitHubSearchClient_get n E rq (w1 @ [Sleep sleep_for])))
          else
            (case raise_for_status resp of
               Some e \<Rightarrow> Some (Inl e, w1)
             | None \<Rightarrow> Some (Inr resp, w1)))"

definition default_branch_of :: "repo_item \<Rightarrow> string" where
  \<comment> \<open>\<^verbatim>\<open>RepoDownloader._default_branch\<close>\<close>
  "default_branch_of item =
     (case default_branch item of None \<Rightarrow> ''master'' | Some b \<Rightarrow> if b = [] then ''master'' else b)"

definition zip_url :: "repo_item \<Rightarrow> string" where
  "zip_url item =
     ''https://github.com/'' @ full_name item @ ''/archive/refs/heads/''
       @ default_branch_of item @ ''.zip''"

definition zip_filename :: "string \<Rightarrow> repo_item \<Rightarrow> string" where
  "zip_filename output_dir item = output_dir @ ''/'' @ replace_slash (full_name item) @ ''.zip''"

definition download_attempt :: "env \<Rightarrow> string \<Rightarrow> string \<Rightarrow> world \<Rightarrow> unit result" where
  \<comment> \<open>the body of the \<^verbatim>\<open>try\<close> of \<^verbatim>\<open>RepoDownloader.download_zip\<close>\<close>
  "download_attempt E url out_path w =
     (case session_get E (Download url) w of
        (Raises e, w1) \<Rightarrow> (Inl e, w1)
      | (Reply r, w1) \<Rightarrow>
          (case raise_for_status r of
             Some e \<Rightarrow> (Inl e, w1)
           | None \<Rightarrow>
               (case store E w1 out_path r of
                  Some e \<Rightarrow> (Inl e, w1 @ [Save out_path (Some e)])
                | None \<Rightarrow> (Inr (), w1 @ [Save out_path None]))))"

definition RepoDownloader_download_zip ::
  "env \<Rightarrow> string \<Rightarrow> repo_item \<Rightarrow> world \<Rightarrow> (bool \<times> string) result"
where
  "RepoDownloader_download_zip E output_dir item w =
     (let url = zip_url item; out_path = zip_filename output_dir item in
      case download_attempt E url out_path w of
        (Inr _, w1) \<Rightarrow> (Inr (True, ''downloaded''), w1)
      | (Inl e, w1) \<Rightarrow> (Inr (False, ''error: '' @ exn_str e), w1))"

record run_counters =
  run_downloaded :: int
  run_failed :: int
  total_processed :: int

definition Pipeline_run_item :: "env \<Rightarrow> string \<Rightarrow> run_counters consumer" where
  \<comment> \<open>the body of the loop over the items of a page in \<^verbatim>\<open>Pipeline.run\<close>, lines 258
      to 278\<close>
  "Pipeline_run_item E output_dir item c w =
     (let user = owner_login item;
          repo = name item;
          repo_url = clone_url item;
          tps = item_topics item
      in if tps \<noteq> [] \<and> ''microservices'' \<notin> set tps then (Inr c, w)
         else
           (case RepoDownloader_download_zip E output_dir item w of
              (Inl e, w1) \<Rightarrow> (Inl e, w1)
            | (Inr (ok, status), w1) \<Rightarrow>
                (let c1 = (if ok then c\<lparr>run_downloaded := run_downloaded c + 1\<rparr>
                           else c\<lparr>run_failed := run_failed c + 1\<rparr>)
                 in (Inr (c1\<lparr>total_processed := total_processed c1 + 1\<rparr>),
                     w1 @ [CsvRow [user, repo, repo_url, status]]))))"

section \<open>Notions used to state the properties\<close>

definition count_query :: "int \<Rightarrow> int \<Rightarrow> search_params" where
  \<comment> \<open>the parameters \<^verbatim>\<open>search_count\<close> sends for the days \<open>a\<close> to \<open>b\<close>\<close>
  "count_query a b =
     \<lparr>q_query = ''topic:'' @ TOPIC, q_from = a, q_to = b,
      per_page = 1, sort_order = None, page = None\<rparr>"

definition succeeded :: "response \<Rightarrow> bool" where
  "succeeded resp = (\<not> (400 \<le> status_code resp \<and> status_code resp < 600))"

definition count_oracle :: "env \<Rightarrow> (int \<Rightarrow> int \<Rightarrow> int) \<Rightarrow> bool" where
  \<comment> \<open>the count query is answered, at any time, with the count \<open>cnt a b\<close>\<close>
  "count_oracle E cnt =
     (\<forall>w a b. \<exists>resp. srv E w (Search (count_query a b)) = Reply resp
          \<and> succeeded resp \<and> json_total_count resp = cnt a b)"

definition days_of :: "datetime \<times> datetime \<Rightarrow> int set" where
  \<comment> \<open>the calendar days a window names in its query; none when the dates are inverted\<close>
  "days_of win = {date_of (fst win)..date_of (snd win)}"

fun chained :: "(datetime \<times> datetime) list \<Rightarrow> bool" where
  \<comment> \<open>each window starts one day after the end of the one before\<close>
  "chained (x # y # zs) = (fst y = snd x + days 1 \<and> chained (y # zs))"
| "chained _ = True"

fun chrono :: "(datetime \<times> datetime) list \<Rightarrow> bool" where
  \<comment> \<open>every day of a window is before every day of each later window\<close>
  "chrono [] = True"
| "chrono (x # xs) =
     ((\<forall>y\<in>set xs. \<forall>a\<in>days_of x. \<forall>b\<in>days_of y. a < b) \<and> chrono xs)"

definition partitions :: "datetime \<Rightarrow> datetime \<Rightarrow> (datetime \<times> datetime) list \<Rightarrow> bool" where
  "partitions s e ws =
     (ws \<noteq> [] \<and> fst (hd ws) = s \<and> snd (last ws) = e \<and> chained ws \<and> chrono ws
      \<and> (\<Union>win\<in>set ws. days_of win) = {date_of s..date_of e})"

definition within_cap :: "(int \<Rightarrow> int \<Rightarrow> int) \<Rightarrow> (datetime \<times> datetime) list \<Rightarrow> bool" where
  "within_cap cnt ws =
     (\<forall>win\<in>set ws. cnt (date_of (fst win)) (date_of (snd win)) \<le> MAX_RESULTS_PER_QUERY)"

definition no_day_over_cap :: "(int \<Rightarrow> int \<Rightarrow> int) \<Rightarrow> bool" where
  \<comment> \<open>a query of one day, or of no day (inverted dates), reports at most the cap\<close>
  "no_day_over_cap cnt = (\<forall>a b. b \<le> a \<longrightarrow> cnt a b \<le> MAX_RESULTS_PER_QUERY)"

text \<open>What a history holds: rows of the record sink, items that pages of results
  returned, requests for a page of results, requests for an archive.\<close>

fun is_row :: "event \<Rightarrow> bool" where
  "is_row (CsvRow r) = True"
| "is_row _ = False"

fun page_items :: "event \<Rightarrow> nat" where
  "page_items (Http (Search p) (Reply r)) =
     (if per_page p = PER_PAGE \<and> succeeded r then length (json_items r) else 0)"
| "page_items _ = 0"

fun is_page_request :: "event \<Rightarrow> bool" where
  "is_page_request (Http (Search p) r) = (per_page p = PER_PAGE)"
| "is_page_request _ = False"

fun is_download :: "event \<Rightarrow> bool" where
  "is_download (Http (Download u) r) = True"
| "is_download _ = False"

fun is_count_request :: "event \<Rightarrow> bool" where
  "is_count_request (Http (Search p) r) = (per_page p = 1)"
| "is_count_request _ = False"

definition count_requests :: "world \<Rightarrow> nat" where
  "count_requests w = length (filter is_count_request w)"

definition rows_written :: "world \<Rightarrow> nat" where
  "rows_written w = length (filter is_row w)"

definition items_returned :: "world \<Rightarrow> nat" where
  "items_returned w = sum_list (map page_items w)"

definition page_requests :: "world \<Rightarrow> nat" where
  "page_requests w = length (filter is_page_request w)"

definition download_attempts :: "world \<Rightarrow> nat" where
  "download_attempts w = length (filter is_download w)"

definition reports_count :: "env \<Rightarrow> (int \<Rightarrow> int \<Rightarrow> int) \<Rightarrow> bool" where
  \<comment> \<open>whenever a search is answered, its \<^verbatim>\<open>total_count\<close> is the count \<open>cnt\<close> of
      the days of the query\<close>
  "reports_count E cnt =
     (\<forall>w p resp. srv E w (Search p) = Reply resp
        \<longrightarrow> json_total_count resp = cnt (q_from p) (q_to p))"

definition leaf_pages :: "(int \<Rightarrow> int \<Rightarrow> int) \<Rightarrow> datetime \<times> datetime \<Rightarrow> int" where
  \<comment> \<open>the number of pages computed for a window whose query reports \<open>cnt\<close>\<close>
  "leaf_pages cnt win = page_count (cnt (date_of (fst win)) (date_of (snd win)))"

definition note_item :: "repo_item list consumer" where
  \<comment> \<open>a loop body that notes each item in the history as it is given and keeps it\<close>
  "note_item item acc w = (Inr (acc @ [item]), w @ [Yielded item])"

definition first_page :: "search_params \<Rightarrow> response \<Rightarrow> event list" where
  \<comment> \<open>the first request, answered by \<open>r\<close>, and then its items, each noted\<close>
  "first_page params r = Http (Search params) (Reply r) # map Yielded (json_items r)"

definition later_page :: "search_params \<Rightarrow> int \<Rightarrow> response \<Rightarrow> event list" where
  \<comment> \<open>the request for page \<open>p\<close>, answered by \<open>r\<close>, then its items, each noted, and then
      the delay\<close>
  "later_page params p r =
     Http (Search (params\<lparr>page := Some p\<rparr>)) (Reply r) # map Yielded (json_items r)
       @ [Sleep DELAY_BETWEEN_PAGES]"

definition fetch_failure :: "env \<Rightarrow> string \<Rightarrow> string \<Rightarrow> world \<Rightarrow> pyexn option" where
  \<comment> \<open>what makes the fetch of the archive at \<open>url\<close> into the file \<open>path\<close> fail: the
      request raises, or the answer has an error status, or storing the body raises\<close>
  "fetch_failure E url path w =
     (case srv E w (Download url) of
        Raises e \<Rightarrow> Some e
      | Reply r \<Rightarrow>
          if 400 \<le> status_code r \<and> status_code r < 600
          then Some (PyExn ''HTTPError'' (error_text r))
          else store E (w @ [Http (Download url) (Reply r)]) path r)"

definition crawl_branch :: "repo_item \<Rightarrow> string" where
  \<comment> \<open>the branch \<^verbatim>\<open>crawl\<close> fetches: \<^verbatim>\<open>item.get("default_branch") or "main"\<close>\<close>
  "crawl_branch item =
     (case default_branch item of None \<Rightarrow> ''main'' | Some b \<Rightarrow> if b = [] then ''main'' else b)"

definition crawl_zip_path :: "repo_item \<Rightarrow> string" where
  \<comment> \<open>the file \<^verbatim>\<open>crawl\<close> stores the archive of an item in\<close>
  "crawl_zip_path item =
     OUTPUT_DIR @ ''/'' @ replace_slash (full_name item) @ ''@'' @ crawl_branch item @ ''.zip''"

section \<open>Environments for the examples\<close>

definition ok_response :: "int \<Rightarrow> repo_item list \<Rightarrow> response" where
  "ok_response n xs =
     \<lparr>status_code = 200, x_ratelimit_remaining = None, x_ratelimit_reset = None,
      error_text = [], total_count = Some n, items = Some xs\<rparr>"

definition fixed_env :: "(int \<Rightarrow> int \<Rightarrow> int) \<Rightarrow> env" where
  \<comment> \<open>every search reports the count \<open>cnt\<close> of its days and no item\<close>
  "fixed_env cnt =
     \<lparr>srv = (\<lambda>w rq. case rq of
                 Search p \<Rightarrow> Reply (ok_response (cnt (q_from p) (q_to p)) [])
               | Download u \<Rightarrow> Reply (ok_response 0 [])),
      clock = (\<lambda>w. 0),
      store = (\<lambda>w path resp. None)\<rparr>"

definition day_counts :: "(int \<Rightarrow> int) \<Rightarrow> int \<Rightarrow> int \<Rightarrow> int" where
  \<comment> \<open>the count of a query when day \<open>d\<close> has \<open>f d\<close> repositories\<close>
  "day_counts f a b = sum_list (map f [a..b])"

definition at_time :: "int \<Rightarrow> int \<Rightarrow> int \<Rightarrow> int \<Rightarrow> int \<Rightarrow> datetime" where
  \<comment> \<open>\<^verbatim>\<open>datetime(year, month, day, hour, minute)\<close>\<close>
  "at_time year month day hour minute =
     mk_datetime year month day + hour * 3600000000 + minute * 60000000"

definition env8 :: env where
  \<comment> \<open>1500 for a query of more than a hundred days, nothing for a shorter one\<close>
  "env8 = fixed_env (\<lambda>a b. if 100 \<le> b - a then 1500 else 0)"

definition env9 :: env where
  \<comment> \<open>600 repositories on each of 2020-01-03 and 2020-01-04, none on any other day\<close>
  "env9 = fixed_env
     (day_counts (\<lambda>d. if d = ymd2ord 2020 1 3 \<or> d = ymd2ord 2020 1 4 then 600 else 0))"

definition throttled :: response where
  \<comment> \<open>the answer of an exhausted quota that resets at second 1030\<close>
  "throttled =
     \<lparr>status_code = 403, x_ratelimit_remaining = Some ''0'',
      x_ratelimit_reset = Some ''1030'', error_text = ''403 Client Error: rate limit exceeded'',
      total_count = None, items = None\<rparr>"

definition env3 :: env where
  \<comment> \<open>the first request is throttled at second 1000, every later one is answered\<close>
  "env3 =
     \<lparr>srv = (\<lambda>w rq. if w = [] then Reply throttled else Reply (ok_response 7 [])),
      clock = (\<lambda>w. 1000),
      store = (\<lambda>w path resp. None)\<rparr>"

definition item1 :: repo_item where
  "item1 =
     \<lparr>owner_login = ''alice'', name = ''shop'', full_name = ''alice/shop'',
      clone_url = ''https://github.com/alice/shop.git'', default_branch = None,
      topics = Some [''java'']\<rparr>"

definition item2 :: repo_item where
  "item2 =
     \<lparr>owner_login = ''bob'', name = ''mesh'', full_name = ''bob/mesh'',
      clone_url = ''https://github.com/bob/mesh.git'', default_branch = Some ''trunk'',
      topics = None\<rparr>"

definition counters0 :: crawl_counters where
  "counters0 =
     \<lparr>period_downloaded = 0, period_failed = 0, page_count_estimate = 0,
      total_downloaded = 0, total_failed = 0\<rparr>"

definition run_counters0 :: run_counters where
  "run_counters0 = \<lparr>run_downloaded = 0, run_failed = 0, total_processed = 0\<rparr>"

definition env_items :: "int \<Rightarrow> (int \<Rightarrow> repo_item list) \<Rightarrow> env" where
  \<comment> \<open>every search reports \<open>n\<close> results, page \<open>p\<close> holds the items \<open>pg p\<close>; the
      archive of \<^verbatim>\<open>bob/mesh\<close> is not found\<close>
  "env_items n pg =
     \<lparr>srv = (\<lambda>w rq. case rq of
                 Search p \<Rightarrow>
                   Reply (ok_response n (pg (case page p of None \<Rightarrow> 1 | Some k \<Rightarrow> k)))
               | Download u \<Rightarrow>
                   if u = zip_download_url ''bob/mesh'' ''trunk'' \<or> u = zip_url item2
                   then Reply ((ok_response 0 [])
                     \<lparr>status_code := 404, error_text := ''404 Client Error: Not Found''\<rparr>)
                   else Reply (ok_response 0 [])),
      clock = (\<lambda>w. 0),
      store = (\<lambda>w path resp. None)\<rparr>"

definition env4 :: env where
  \<comment> \<open>two results on one page; the archive of the second is not found\<close>
  "env4 = env_items 2 (\<lambda>p. if p = 1 then [item1, item2] else [])"

definition env7 :: env where
  \<comment> \<open>250 results: one item on page 1, one on page 2, none on page 3\<close>
  "env7 = env_items 250 (\<lambda>p. if p = 1 then [item1] else if p = 2 then [item2] else [])"

section \<open>Properties of the partitioner\<close>

lemma count_oracle_fixed_env: "count_oracle (fixed_env cnt) cnt"
  by (simp add: count_oracle_def fixed_env_def ok_response_def succeeded_def
      json_total_count_def count_query_def)

lemma search_count_oracle:
  assumes "count_oracle E cnt"
  shows "search_count E s e w =
     (Inr (cnt (date_of s) (date_of e)),
      w @ [Http (Search (count_params s e)) (srv E w (Search (count_params s e)))])"
proof -
  have cq: "count_params s e = count_query (date_of s) (date_of e)"
    by (simp add: count_params_def count_query_def)
  from assms obtain resp where r: "srv E w (Search (count_params s e)) = Reply resp"
    "succeeded resp" "json_total_count resp = cnt (date_of s) (date_of e)"
    unfolding count_oracle_def cq by blast
  from r(2) have "status_code resp \<noteq> 403" by (auto simp: succeeded_def)
  then show ?thesis using r
    by (simp add: search_count_def checked_get_def session_get_def rate_limit_sleep_def
        raise_for_status_def succeeded_def Let_def)
qed

lemma td_half_0: "td_half 0 = 0"
  by (simp add: td_half_def)

lemma td_half_bounds: "0 \<le> x \<Longrightarrow> 0 \<le> td_half x \<and> td_half x \<le> x"
  unfolding td_half_def Let_def by (auto; presburger)

lemma td_half_bounds_neg: "x \<le> 0 \<Longrightarrow> x \<le> td_half x \<and> td_half x \<le> 0"
  unfolding td_half_def Let_def by (auto; presburger)

lemma td_half_less: "1 \<le> x \<Longrightarrow> td_half x < x"
  unfolding td_half_def Let_def by (auto; presburger)

lemma date_of_mono: "a \<le> b \<Longrightarrow> date_of a \<le> date_of b"
  unfolding date_of_def by (rule zdiv_mono1) simp_all

lemma date_of_next: "date_of (t + days 1) = date_of t + 1"
  unfolding date_of_def days_def by simp

lemma date_less_imp_less: "date_of a < date_of b \<Longrightarrow> a < b"
  using date_of_mono [of b a] by linarith

lemma in_range_between:
  "in_range a \<Longrightarrow> in_range b \<Longrightarrow> a \<le> t \<Longrightarrow> t \<le> b \<Longrightarrow> in_range t"
  using date_of_mono [of a t] date_of_mono [of t b] by (simp add: in_range_def)

lemma midpoint_in_range:
  assumes "in_range s" and "in_range e"
  shows "in_range (s + td_half (e - s))"
proof (cases "s \<le> e")
  case True
  with td_half_bounds [of "e - s"] have "s \<le> s + td_half (e - s)" "s + td_half (e - s) \<le> e"
    by simp_all
  with assms show ?thesis by (rule in_range_between)
next
  case False
  with td_half_bounds_neg [of "e - s"] have "e \<le> s + td_half (e - s)" "s + td_half (e - s) \<le> s"
    by simp_all
  with assms(2,1) show ?thesis by (rule in_range_between)
qed

lemma dt_add_in_range: "in_range (t + d) \<Longrightarrow> dt_add t d = Inr (t + d)"
  by (simp add: dt_add_def)

lemma split_single_day_diverges:
  assumes "count_oracle E cnt" and "cnt (date_of s) (date_of s) > 1000" and "in_range s"
  shows "split_window_if_needed n E s s w = None"
  using assms
proof (induction n arbitrary: w)
  case 0
  show ?case by simp
next
  case (Suc n)
  then show ?case
    by (simp add: search_count_oracle MAX_RESULTS_PER_QUERY_def td_half_0 dt_add_in_range)
qed

lemma split_all_over_cap_diverges:
  assumes "count_oracle E cnt" and "\<forall>a b. cnt a b > 1000"
  shows "in_range s \<Longrightarrow> in_range e \<Longrightarrow> split_window_if_needed n E s e w = None"
proof (induction n arbitrary: s e w)
  case 0
  show ?case by simp
next
  case (Suc n)
  from assms(2) have "\<not> cnt (date_of s) (date_of e) \<le> 1000"
    by (simp add: not_le)
  moreover have "in_range (s + td_half (e - s))"
    using Suc.prems by (rule midpoint_in_range)
  ultimately show ?case
    using Suc.IH [OF Suc.prems(1)] assms(1)
    by (simp add: search_count_oracle MAX_RESULTS_PER_QUERY_def dt_add_in_range)
qed

lemma split_fuel_mono:
  "split_window_if_needed n E s e w = Some r
   \<Longrightarrow> split_window_if_needed (n + k) E s e w = Some r"
proof (induction n arbitrary: s e w r)
  case 0
  then show ?case by simp
next
  case (Suc n)
  from Suc.prems show ?case
    by (auto simp: Let_def split: prod.splits sum.splits option.splits if_splits
        dest!: Suc.IH)
qed

lemma chained_append:
  "chained xs \<Longrightarrow> chained ys \<Longrightarrow> xs \<noteq> [] \<Longrightarrow> ys \<noteq> []
   \<Longrightarrow> fst (hd ys) = snd (last xs) + days 1 \<Longrightarrow> chained (xs @ ys)"
proof (induction xs)
  case Nil
  then show ?case by simp
next
  case (Cons x xs)
  show ?case
  proof (cases xs)
    case Nil
    with Cons.prems show ?thesis by (cases ys) auto
  next
    case (Cons x' xs')
    with Cons.IH Cons.prems show ?thesis by auto
  qed
qed

lemma chrono_append:
  "chrono xs \<Longrightarrow> chrono ys
   \<Longrightarrow> (\<forall>x\<in>set xs. \<forall>y\<in>set ys. \<forall>a\<in>days_of x. \<forall>b\<in>days_of y. a < b)
   \<Longrightarrow> chrono (xs @ ys)"
  by (induction xs) auto

lemma partitions_single: "partitions s e [(s, e)]"
  by (simp add: partitions_def days_of_def)

lemma partitions_append:
  assumes l: "partitions s m ls" and r: "partitions (m + days 1) e rs"
    and sm: "date_of s \<le> date_of m + 1" and me: "date_of m \<le> date_of e"
  shows "partitions s e (ls @ rs)"
proof -
  from l have ul: "(\<Union>win\<in>set ls. days_of win) = {date_of s..date_of m}"
    and cl: "chained ls" "chrono ls" "ls \<noteq> []" "fst (hd ls) = s" "snd (last ls) = m"
    by (simp_all add: partitions_def)
  from r have ur: "(\<Union>win\<in>set rs. days_of win) = {date_of m + 1..date_of e}"
    and cr: "chained rs" "chrono rs" "rs \<noteq> []" "fst (hd rs) = m + days 1"
      "snd (last rs) = e"
    by (simp_all add: partitions_def date_of_next)
  have sep: "\<forall>x\<in>set ls. \<forall>y\<in>set rs. \<forall>a\<in>days_of x. \<forall>b\<in>days_of y. a < b"
  proof (intro ballI)
    fix x y a b
    assume "x \<in> set ls" "y \<in> set rs" "a \<in> days_of x" "b \<in> days_of y"
    then have "a \<in> {date_of s..date_of m}" "b \<in> {date_of m + 1..date_of e}"
      using ul ur by blast+
    then show "a < b" by simp
  qed
  have un: "(\<Union>win\<in>set (ls @ rs). days_of win) = {date_of s..date_of e}"
    using ul ur sm me by auto
  show ?thesis
    unfolding partitions_def
    using cl cr un chained_append [of ls rs] chrono_append [OF cl(2) cr(2) sep]
    by simp
qed

lemma split_total:
  assumes orc: "count_oracle E cnt"
    and small: "\<forall>a b. b \<le> a \<longrightarrow> cnt a b \<le> MAX_RESULTS_PER_QUERY"
  shows "date_of s \<le> date_of e + 1 \<Longrightarrow> in_range s \<Longrightarrow> in_range (e + days 1) \<Longrightarrow>
     \<exists>n ws w'. split_window_if_needed n E s e w = Some (Inr ws, w')
        \<and> partitions s e ws \<and> within_cap cnt ws"
proof (induction "nat (e - s)" arbitrary: s e w rule: less_induct)
  case less
  define w1 where "w1 = snd (search_count E s e w)"
  have sc: "search_count E s e w = (Inr (cnt (date_of s) (date_of e)), w1)"
    unfolding w1_def by (simp add: search_count_oracle [OF orc])
  show ?case
  proof (cases "cnt (date_of s) (date_of e) \<le> MAX_RESULTS_PER_QUERY")
    case True
    then have "split_window_if_needed (Suc 0) E s e w = Some (Inr [(s, e)], w1)"
      by (simp add: sc)
    moreover have "within_cap cnt [(s, e)]"
      using True by (simp add: within_cap_def)
    ultimately show ?thesis
      using partitions_single by blast
  next
    case False
    with small have "date_of s < date_of e"
      by (meson not_le_imp_less)
    then have se: "s < e"
      by (rule date_less_imp_less)
    define m where "m = s + td_half (e - s)"
    have m: "s \<le> m" "m < e"
      using td_half_bounds [of "e - s"] td_half_less [of "e - s"] se
      by (simp_all add: m_def)
    have dm: "date_of s \<le> date_of m + 1" "date_of m \<le> date_of e"
      using date_of_mono [of s m] date_of_mono [of m e] m by simp_all
    have rm: "in_range m" "in_range (m + days 1)"
      using less.prems(2,3) dm date_of_mono [of s m] m
      by (simp_all add: in_range_def date_of_next)
    have mid: "dt_add s (td_half (e - s)) = Inr m" "dt_add m (days 1) = Inr (m + days 1)"
      using rm by (simp_all add: dt_add_in_range m_def)
    have "nat (m - s) < nat (e - s)"
      using m by simp
    from less.hyps [OF this dm(1) less.prems(2) rm(2), of w1] obtain n1 ls w2 where
      l: "split_window_if_needed n1 E s m w1 = Some (Inr ls, w2)"
        "partitions s m ls" "within_cap cnt ls"
      by blast
    have "nat (e - (m + days 1)) < nat (e - s)"
      using m se by (simp add: days_def)
    moreover have "date_of (m + days 1) \<le> date_of e + 1"
      using dm(2) by (simp add: date_of_next)
    ultimately obtain n2 rs w3 where
      r: "split_window_if_needed n2 E (m + days 1) e w2 = Some (Inr rs, w3)"
        "partitions (m + days 1) e rs" "within_cap cnt rs"
      using less.hyps [where s = "m + days 1" and e = e and w = w2] rm(2) less.prems(3)
      by blast
    have l': "split_window_if_needed (n1 + n2) E s m w1 = Some (Inr ls, w2)"
      using split_fuel_mono [OF l(1)] .
    have r': "split_window_if_needed (n1 + n2) E (m + days 1) e w2 = Some (Inr rs, w3)"
      using split_fuel_mono [OF r(1), of n1] by (simp add: add.commute)
    have "split_window_if_needed (Suc (n1 + n2)) E s e w = Some (Inr (ls @ rs), w3)"
      using False l' r' by (simp add: sc mid)
    moreover have "partitions s e (ls @ rs)"
      using partitions_append [OF l(2) r(2) dm] .
    moreover have "within_cap cnt (ls @ rs)"
      using l(3) r(3) by (auto simp: within_cap_def)
    ultimately show ?thesis by blast
  qed
qed

lemma split_step:
  assumes orc: "count_oracle E cnt"
    and small: "\<forall>a b. b \<le> a \<longrightarrow> cnt a b \<le> MAX_RESULTS_PER_QUERY"
    and over: "cnt (date_of s) (date_of e) > MAX_RESULTS_PER_QUERY"
    and m: "m = s + td_half (e - s)"
    and rng: "in_range s" "in_range (e + days 1)"
  shows "\<exists>n ls rs w'.
        (\<forall>k. split_window_if_needed (n + k) E s e w = Some (Inr (ls @ rs), w'))
        \<and> partitions s m ls \<and> partitions (m + days 1) e rs
        \<and> within_cap cnt ls \<and> within_cap cnt rs \<and> partitions s e (ls @ rs)"
proof -
  define w1 where "w1 = snd (search_count E s e w)"
  have sc: "search_count E s e w = (Inr (cnt (date_of s) (date_of e)), w1)"
    unfolding w1_def by (simp add: search_count_oracle [OF orc])
  from over small have "date_of s < date_of e"
    by (meson not_le_imp_less not_less)
  then have se: "s < e"
    by (rule date_less_imp_less)
  have sm: "s \<le> m" "m < e"
    using td_half_bounds [of "e - s"] td_half_less [of "e - s"] se by (simp_all add: m)
  have dm: "date_of s \<le> date_of m + 1" "date_of m \<le> date_of e"
    using date_of_mono [of s m] date_of_mono [of m e] sm by simp_all
  have rm: "in_range m" "in_range (m + days 1)"
    using rng dm date_of_mono [of s m] sm
    by (simp_all add: in_range_def date_of_next)
  have mid: "dt_add s (td_half (e - s)) = Inr m" "dt_add m (days 1) = Inr (m + days 1)"
    using rm by (simp_all add: dt_add_in_range m)
  from split_total [OF orc small dm(1) rng(1) rm(2), of w1] obtain n1 ls w2 where
    l: "split_window_if_needed n1 E s m w1 = Some (Inr ls, w2)"
      "partitions s m ls" "within_cap cnt ls"
    by blast
  have "date_of (m + days 1) \<le> date_of e + 1"
    using dm(2) by (simp add: date_of_next)
  from split_total [OF orc small this rm(2) rng(2), of w2] obtain n2 rs w3 where
    r: "split_window_if_needed n2 E (m + days 1) e w2 = Some (Inr rs, w3)"
      "partitions (m + days 1) e rs" "within_cap cnt rs"
    by blast
  have "split_window_if_needed (Suc (n1 + n2) + k) E s e w = Some (Inr (ls @ rs), w3)" for k
  proof -
    have l': "split_window_if_needed (n1 + (n2 + k)) E s m w1 = Some (Inr ls, w2)"
      using split_fuel_mono [OF l(1)] .
    have r': "split_window_if_needed (n2 + (n1 + k)) E (m + days 1) e w2 = Some (Inr rs, w3)"
      using split_fuel_mono [OF r(1)] .
    have eq: "n2 + (n1 + k) = n1 + (n2 + k)" by simp
    show ?thesis
      using over l' r' [unfolded eq] by (simp add: sc mid add.assoc)
  qed
  moreover have "partitions s e (ls @ rs)"
    using partitions_append [OF l(2) r(2) dm] .
  ultimately show ?thesis
    using l(2,3) r(2,3) by blast
qed

lemma in_range_2020:
  "in_range (mk_datetime 2020 1 1)" "in_range (mk_datetime 2020 1 2)"
  "in_range (mk_datetime 2020 6 30 + days 1)"
  by (simp_all add: in_range_def date_of_def mk_datetime_def days_def ymd2ord_def
      days_before_year_def days_before_month_def is_leap_def)

text \<open>
  C2 (termination of the partitioner whatever the oracle reports, a single day above the
  cap being returned as it is).  The code has no such base case: on the one-day window
  2020-01-01..2020-01-01 with a reported count of 1001 the midpoint is the start itself,
  the left half is the same window again, and no number of nested calls is enough.
\<close>

theorem split_single_day_over_cap_never_returns:
  "\<forall>n w. split_window_if_needed n (fixed_env (\<lambda>a b. 1001))
            (mk_datetime 2020 1 1) (mk_datetime 2020 1 1) w = None"
  using split_single_day_diverges [OF count_oracle_fixed_env [of "\<lambda>a b. 1001"] _ in_range_2020(1)]
  by simp

text \<open>
  C1 (the partition is a lossless cover without overlap, each leaf within the cap but for
  a single day above it, which is a leaf of its own).  The partitioner returns no such
  leaf: for the two days 2020-01-01..2020-01-02 under an API that reports 1500 for every
  query, where the claim has the two days as two leaves, it returns nothing, whatever the
  number of nested calls allowed.  This is the missing base case of C2.
\<close>

theorem split_two_days_over_cap_never_returns:
  "\<forall>n w. split_window_if_needed n (fixed_env (\<lambda>a b. 1500))
            (mk_datetime 2020 1 1) (mk_datetime 2020 1 2) w = None"
  using split_all_over_cap_diverges [OF count_oracle_fixed_env [of "\<lambda>a b. 1500"] _
      in_range_2020(1) in_range_2020(2)]
  by simp

text \<open>
  Where no day alone is above the cap the partitioner does return, given enough nested
  calls and a window that ends before the last day of the year 9999: the leaves are in
  chronological order, each starts the day after the one before ends, their days are
  disjoint and are together the days of the window, and each leaf reports at most 1000.
\<close>

lemma split_window_partitions:
  assumes "count_oracle E cnt"
    and "no_day_over_cap cnt"
    and "s \<le> e" and "in_range s" and "in_range (e + days 1)"
  shows "\<exists>n ws w'. (\<forall>k. split_window_if_needed (n + k) E s e w = Some (Inr ws, w'))
           \<and> partitions s e ws \<and> within_cap cnt ws"
proof -
  from \<open>s \<le> e\<close> have "date_of s \<le> date_of e + 1"
    using date_of_mono [of s e] by simp
  from split_total [OF assms(1) assms(2) [unfolded no_day_over_cap_def] this assms(4,5), of w]
  obtain n ws w' where
    r: "split_window_if_needed n E s e w = Some (Inr ws, w')"
      "partitions s e ws" "within_cap cnt ws"
    by blast
  have "\<forall>k. split_window_if_needed (n + k) E s e w = Some (Inr ws, w')"
    using split_fuel_mono [OF r(1)] by blast
  with r(2,3) show ?thesis by blast
qed

lemma split_overflow_example:
  "map_option fst
     (split_window_if_needed 3 (fixed_env (day_counts (\<lambda>d. 600)))
        (at_time 9999 12 30 12 0) (at_time 9999 12 31 18 0) [])
     = Some (Inl (PyExn ''OverflowError'' ''date value out of range''))"
  by code_simp

lemma mid8:
  "mk_datetime 2020 1 1 + td_half (mk_datetime 2020 6 30 - mk_datetime 2020 1 1)
     = at_time 2020 3 31 12 0"
  by (simp add: mk_datetime_def at_time_def days_def ymd2ord_def days_before_year_def
      days_before_month_def is_leap_def td_half_def Let_def)

lemma dates8:
  "date_of (mk_datetime 2020 1 1) = ymd2ord 2020 1 1"
  "date_of (mk_datetime 2020 6 30) = ymd2ord 2020 6 30"
  "date_of (at_time 2020 3 31 12 0) = ymd2ord 2020 3 31"
  "date_of (at_time 2020 3 31 12 0 + days 1) = ymd2ord 2020 4 1"
  "date_of (at_time 2020 4 1 12 0) = ymd2ord 2020 4 1"
  by (simp_all add: mk_datetime_def at_time_def days_def date_of_def ymd2ord_def
      days_before_year_def days_before_month_def is_leap_def)

lemma count_oracle_env8: "count_oracle env8 (\<lambda>a b. if 100 \<le> b - a then 1500 else 0)"
  unfolding env8_def by (rule count_oracle_fixed_env)

text \<open>
  C8, as amended (the window 2020-01-01..2020-06-30 reporting 1500).  The midpoint is
  2020-03-31 12:00, so the left half is queried as 2020-01-01..2020-03-31 and the right
  half as 2020-04-01..2020-06-30; when every query of one day or of no day reports at most
  1000 the result is a partition of the left half followed by a partition of the right
  half, each leaf reports at most 1000, and the leaves hold each of the 182 days of the
  window once.
\<close>

theorem split_first_half_of_2020:
  assumes "count_oracle E cnt"
    and "no_day_over_cap cnt"
    and "cnt (ymd2ord 2020 1 1) (ymd2ord 2020 6 30) = 1500"
  shows "\<exists>n ls rs w'.
      (\<forall>k. split_window_if_needed (n + k) E (mk_datetime 2020 1 1) (mk_datetime 2020 6 30) w
              = Some (Inr (ls @ rs), w'))
      \<and> (\<Union>win\<in>set ls. days_of win) = {ymd2ord 2020 1 1..ymd2ord 2020 3 31}
      \<and> (\<Union>win\<in>set rs. days_of win) = {ymd2ord 2020 4 1..ymd2ord 2020 6 30}
      \<and> chrono (ls @ rs) \<and> within_cap cnt (ls @ rs)
      \<and> card (\<Union>win\<in>set (ls @ rs). days_of win) = 182"
proof -
  let ?s = "mk_datetime 2020 1 1" and ?e = "mk_datetime 2020 6 30" and ?m = "at_time 2020 3 31 12 0"
  have over: "cnt (date_of ?s) (date_of ?e) > MAX_RESULTS_PER_QUERY"
    using assms(3) by (simp add: dates8 MAX_RESULTS_PER_QUERY_def)
  from split_step [OF assms(1) assms(2) [unfolded no_day_over_cap_def] over mid8 [symmetric]
      in_range_2020(1,3), of w]
  obtain n ls rs w' where
    r: "\<forall>k. split_window_if_needed (n + k) E ?s ?e w = Some (Inr (ls @ rs), w')"
      "partitions ?s ?m ls" "partitions (?m + days 1) ?e rs"
      "within_cap cnt ls" "within_cap cnt rs" "partitions ?s ?e (ls @ rs)"
    by blast
  have 1: "(\<Union>win\<in>set ls. days_of win) = {ymd2ord 2020 1 1..ymd2ord 2020 3 31}"
    using r(2) by (simp add: partitions_def dates8)
  have 2: "(\<Union>win\<in>set rs. days_of win) = {ymd2ord 2020 4 1..ymd2ord 2020 6 30}"
    using r(3) by (simp add: partitions_def dates8)
  have 3: "chrono (ls @ rs)"
    using r(6) by (simp add: partitions_def)
  have 4: "within_cap cnt (ls @ rs)"
    using r(4,5) by (auto simp: within_cap_def)
  have "(\<Union>win\<in>set (ls @ rs). days_of win) = {ymd2ord 2020 1 1..ymd2ord 2020 6 30}"
    using r(6) by (simp add: partitions_def dates8)
  then have 5: "card (\<Union>win\<in>set (ls @ rs). days_of win) = 182"
    by (simp add: ymd2ord_def days_before_year_def days_before_month_def is_leap_def)
  from r(1) 1 2 3 4 5 show ?thesis by blast
qed

theorem split_first_half_of_2020_witness:
  "count_oracle env8 (\<lambda>a b. if 100 \<le> b - a then 1500 else 0)
   \<and> no_day_over_cap (\<lambda>a b. if 100 \<le> b - a then 1500 else 0)
   \<and> (if 100 \<le> ymd2ord 2020 6 30 - ymd2ord 2020 1 1 then 1500 else 0) = (1500::int)
   \<and> (\<exists>n ls rs w'.
      (\<forall>k. split_window_if_needed (n + k) env8 (mk_datetime 2020 1 1) (mk_datetime 2020 6 30) []
              = Some (Inr (ls @ rs), w'))
      \<and> (\<Union>win\<in>set ls. days_of win) = {ymd2ord 2020 1 1..ymd2ord 2020 3 31}
      \<and> (\<Union>win\<in>set rs. days_of win) = {ymd2ord 2020 4 1..ymd2ord 2020 6 30}
      \<and> chrono (ls @ rs) \<and> within_cap (\<lambda>a b. if 100 \<le> b - a then 1500 else 0) (ls @ rs)
      \<and> card (\<Union>win\<in>set (ls @ rs). days_of win) = 182)"
proof -
  have small: "no_day_over_cap (\<lambda>a b. if 100 \<le> b - a then 1500 else 0)"
    by (simp add: no_day_over_cap_def MAX_RESULTS_PER_QUERY_def)
  have whole: "(if 100 \<le> ymd2ord 2020 6 30 - ymd2ord 2020 1 1 then 1500 else 0) = (1500::int)"
    by (simp add: ymd2ord_def days_before_year_def days_before_month_def is_leap_def)
  show ?thesis
    using split_first_half_of_2020 [OF count_oracle_env8 small whole, of "[]"]
      count_oracle_env8 small whole
    by blast
qed

text \<open>
  C8 as it is stated fails: with both halves under the cap the two leaves meet between
  2020-03-31 and 2020-04-01, not between 2020-03-30 and 2020-03-31, and the window has 182
  days, not 181.
\<close>

theorem split_first_half_of_2020_boundary:
  "map_option fst (split_window_if_needed 2 env8 (mk_datetime 2020 1 1) (mk_datetime 2020 6 30) [])
     = Some (Inr [(mk_datetime 2020 1 1, at_time 2020 3 31 12 0),
                  (at_time 2020 4 1 12 0, mk_datetime 2020 6 30)])
   \<and> date_of (at_time 2020 3 31 12 0) = ymd2ord 2020 3 31
   \<and> date_of (at_time 2020 3 31 12 0) \<noteq> ymd2ord 2020 3 30
   \<and> date_of (at_time 2020 4 1 12 0) = ymd2ord 2020 4 1
   \<and> card {date_of (mk_datetime 2020 1 1)..date_of (mk_datetime 2020 6 30)} = 182"
proof (intro conjI)
  show "card {date_of (mk_datetime 2020 1 1)..date_of (mk_datetime 2020 6 30)} = 182"
    by (simp add: dates8 ymd2ord_def days_before_year_def days_before_month_def is_leap_def)
qed code_simp+

text \<open>
  The top-level windows have \<open>start \<le> end\<close>, in \<^verbatim>\<open>crawl\<close> by the test of its
  loop and in \<^verbatim>\<open>DateRanges.windows\<close> for each window yielded.
\<close>

lemma crawl_top_window_ordered:
  "current_start \<le> finish_date \<Longrightarrow> dt_add current_start (days DATE_STEP_DAYS) = Inr step_end
   \<Longrightarrow> current_start \<le> min step_end finish_date"
  by (auto simp: dt_add_def days_def DATE_STEP_DAYS_def split: if_splits)

lemma DateRanges_windows_ordered:
  "(a, b) \<in> set (fst (DateRanges_windows step_days finish start)) \<Longrightarrow> a \<le> b"
proof (induction step_days finish start rule: DateRanges_windows.induct)
  case (1 step_days finish start)
  from "1.prems" "1.IH" show ?case
    by (subst (asm) DateRanges_windows.simps)
      (auto simp: Let_def dt_add_def days_def split: if_splits sum.splits prod.splits)
qed

lemma DateRanges_windows_example:
  "DateRanges_windows 182 (mk_datetime 2021 1 30) (mk_datetime 2020 1 1)
     = ([(mk_datetime 2020 1 1, mk_datetime 2020 7 1),
         (mk_datetime 2020 7 2, mk_datetime 2020 12 31),
         (mk_datetime 2021 1 1, mk_datetime 2021 1 30)], None)"
  by code_simp

text \<open>
  C9 (every window built has \<open>start \<le> end\<close>).  For 2020-01-01..2020-01-08 with 600
  repositories on each of 2020-01-03 and 2020-01-04 the partitioner returns, as its fourth
  leaf, the window from 2020-01-05 03:00 to 2020-01-04 12:00, whose query is
  \<^verbatim>\<open>created:2020-01-05..2020-01-04\<close>; the third leaf starts at 22:30 and ends at
  03:00 of the same day.
\<close>

theorem split_returns_inverted_window:
  "map_option fst (split_window_if_needed 5 env9 (mk_datetime 2020 1 1) (mk_datetime 2020 1 8) [])
     = Some (Inr [(mk_datetime 2020 1 1, at_time 2020 1 2 18 0),
                (at_time 2020 1 3 18 0, at_time 2020 1 3 22 30),
                (at_time 2020 1 4 22 30, at_time 2020 1 4 3 0),
                (at_time 2020 1 5 3 0, at_time 2020 1 4 12 0),
                (at_time 2020 1 5 12 0, mk_datetime 2020 1 8)])
   \<and> date_of (at_time 2020 1 5 3 0) = ymd2ord 2020 1 5
   \<and> date_of (at_time 2020 1 4 12 0) = ymd2ord 2020 1 4
   \<and> \<not> date_of (at_time 2020 1 5 3 0) \<le> date_of (at_time 2020 1 4 12 0)
   \<and> \<not> at_time 2020 1 4 22 30 \<le> at_time 2020 1 4 3 0"
  by code_simp

section \<open>Throttling\<close>

lemma py_int_1030: "py_int ''1030'' = Some 1030"
  by (simp add: py_int_def strip_def is_space_def is_digit_def digits_value_def)

lemma GitHubSearchClient_get_retries:
  assumes "srv E w rq = Reply resp" and "status_code resp = 403"
    and "x_ratelimit_remaining resp = Some ''0''" and "py_int (header_reset resp) = Some t"
  shows "GitHubSearchClient_get (Suc n) E rq w =
     GitHubSearchClient_get n E rq
       (w @ [Http rq (Reply resp), Sleep (max 0 (t - clock E (w @ [Http rq (Reply resp)]) + 5))])"
  using assms by (simp add: session_get_def Let_def)

lemma GitHubSearchClient_get_example:
  "GitHubSearchClient_get 2 env3 rq []
     = Some (Inr (ok_response 7 []),
         [Http rq (Reply throttled), Sleep 35, Http rq (Reply (ok_response 7 []))])"
  by (simp add: numeral_2_eq_2 session_get_def env3_def throttled_def header_reset_def
      py_int_1030 raise_for_status_def ok_response_def Let_def)

text \<open>
  C3 (a throttled search is waited out and retried, and is no failure).
  \<^verbatim>\<open>GitHubSearchClient._get\<close> does so, as the two lemmas above show.  The requests of
  crawler\_refactored.py do not: with the quota exhausted at second 1000 and its reset at
  second 1030, \<^verbatim>\<open>search_count\<close> sleeps 33 seconds and then raises the HTTPError of the
  throttled answer without a second request, and a throttled archive request inside
  \<^verbatim>\<open>crawl\<close> is counted as a failed download.
\<close>

theorem throttled_search_raises:
  "search_count env3 (mk_datetime 2020 1 1) (mk_datetime 2020 6 30) []
     = (Inl (PyExn ''HTTPError'' ''403 Client Error: rate limit exceeded''),
        [Http (Search (count_params (mk_datetime 2020 1 1) (mk_datetime 2020 6 30)))
           (Reply throttled),
         Sleep 33])
   \<and> fst (crawl_item env3 item1 counters0 [])
       = Inr (counters0\<lparr>period_failed := 1, total_failed := 1\<rparr>)"
  by (simp add: search_count_def checked_get_def session_get_def env3_def throttled_def
      rate_limit_sleep_def py_int_1030 raise_for_status_def crawl_item_def download_zip_def
      counters0_def Let_def)

section \<open>What a run adds to the history\<close>

lemma tally_append [simp]:
  "rows_written (u @ v) = rows_written u + rows_written v"
  "items_returned (u @ v) = items_returned u + items_returned v"
  "page_requests (u @ v) = page_requests u + page_requests v"
  "download_attempts (u @ v) = download_attempts u + download_attempts v"
  by (simp_all add: rows_written_def items_returned_def page_requests_def download_attempts_def)

lemma tally_Nil [simp]:
  "rows_written [] = 0" "items_returned [] = 0" "page_requests [] = 0" "download_attempts [] = 0"
  by (simp_all add: rows_written_def items_returned_def page_requests_def download_attempts_def)

lemma tally_Cons [simp]:
  "rows_written (ev # v) = (if is_row ev then 1 else 0) + rows_written v"
  "items_returned (ev # v) = page_items ev + items_returned v"
  "page_requests (ev # v) = (if is_page_request ev then 1 else 0) + page_requests v"
  "download_attempts (ev # v) = (if is_download ev then 1 else 0) + download_attempts v"
  by (simp_all add: rows_written_def items_returned_def page_requests_def download_attempts_def)

lemma checked_get_shape:
  assumes "checked_get E rq w = (res, w')"
  shows "\<exists>sl. w' = w @ Http rq (srv E w rq) # sl \<and> (sl = [] \<or> (\<exists>n. sl = [Sleep n]))
           \<and> (\<forall>r. res = Inr r \<longrightarrow> srv E w rq = Reply r \<and> succeeded r \<and> sl = [])"
  using assms
  by (auto simp: checked_get_def session_get_def rate_limit_sleep_def raise_for_status_def
      succeeded_def Let_def split: reply.splits if_splits option.splits)

lemma checked_get_tally:
  assumes "checked_get E rq w = (res, w')"
  shows "rows_written w' = rows_written w"
    and "download_attempts w' = download_attempts w + (if is_download (Http rq (srv E w rq)) then 1 else 0)"
    and "page_requests w' = page_requests w + (if is_page_request (Http rq (srv E w rq)) then 1 else 0)"
    and "items_returned w' = items_returned w + page_items (Http rq (srv E w rq))"
  using checked_get_shape [OF assms] by auto

lemma download_zip_tally:
  assumes "download_zip E fname branch path w = (res, w')"
  shows "rows_written w' = rows_written w \<and> download_attempts w' = download_attempts w + 1
       \<and> page_requests w' = page_requests w \<and> items_returned w' = items_returned w"
proof -
  obtain r1 w1 where g: "checked_get E (Download (zip_download_url fname branch)) w = (r1, w1)"
    by (cases "checked_get E (Download (zip_download_url fname branch)) w")
  from assms g have "\<exists>sv. w' = w1 @ sv \<and> (sv = [] \<or> (\<exists>x. sv = [Save path x]))"
    by (auto simp: download_zip_def split: sum.splits option.splits)
  with checked_get_tally [OF g] show ?thesis by auto
qed

lemma crawl_item_tally:
  assumes "crawl_item E item c w = (res, w')"
  shows "\<exists>c'. res = Inr c'
       \<and> page_count_estimate c' = page_count_estimate c
       \<and> ((period_downloaded c' = period_downloaded c + 1 \<and> period_failed c' = period_failed c)
          \<or> (period_downloaded c' = period_downloaded c \<and> period_failed c' = period_failed c + 1))"
    and "rows_written w' = rows_written w + 1"
    and "download_attempts w' = download_attempts w + 1"
    and "page_requests w' = page_requests w"
    and "items_returned w' = items_returned w"
proof -
  let ?branch = "case default_branch item of None \<Rightarrow> ''main'' | Some b \<Rightarrow> if b = [] then ''main'' else b"
  let ?path = "OUTPUT_DIR @ ''/'' @ replace_slash (full_name item) @ ''@'' @ ?branch @ ''.zip''"
  obtain r1 w1 where d: "download_zip E (full_name item) ?branch ?path w = (r1, w1)"
    by (cases "download_zip E (full_name item) ?branch ?path w")
  from assms d have w': "\<exists>row. w' = w1 @ [CsvRow row]"
    by (auto simp: crawl_item_def Let_def split: sum.splits)
  from assms d show "\<exists>c'. res = Inr c'
       \<and> page_count_estimate c' = page_count_estimate c
       \<and> ((period_downloaded c' = period_downloaded c + 1 \<and> period_failed c' = period_failed c)
          \<or> (period_downloaded c' = period_downloaded c \<and> period_failed c' = period_failed c + 1))"
    by (auto simp: crawl_item_def Let_def split: sum.splits)
  from w' download_zip_tally [OF d]
  show "rows_written w' = rows_written w + 1"
    and "download_attempts w' = download_attempts w + 1"
    and "page_requests w' = page_requests w"
    and "items_returned w' = items_returned w"
    by auto
qed

lemma download_attempt_tally:
  assumes "download_attempt E url path w = (res, w')"
  shows "rows_written w' = rows_written w \<and> download_attempts w' = download_attempts w + 1"
  using assms
  by (auto simp: download_attempt_def session_get_def Let_def
      split: reply.splits option.splits)

lemma Pipeline_run_item_tally:
  assumes "Pipeline_run_item E out item c w = (res, w')"
  shows "\<exists>c'. res = Inr c'"
    and "download_attempts w' = download_attempts w
           + (if item_topics item \<noteq> [] \<and> ''microservices'' \<notin> set (item_topics item) then 0 else 1)"
proof -
  obtain r1 w1 where d: "download_attempt E (zip_url item) (zip_filename out item) w = (r1, w1)"
    by (cases "download_attempt E (zip_url item) (zip_filename out item) w")
  from assms d show "\<exists>c'. res = Inr c'"
    by (auto simp: Pipeline_run_item_def RepoDownloader_download_zip_def Let_def
        split: sum.splits if_splits)
  from assms d download_attempt_tally [OF d]
  show "download_attempts w' = download_attempts w
           + (if item_topics item \<noteq> [] \<and> ''microservices'' \<notin> set (item_topics item) then 0 else 1)"
    by (auto simp: Pipeline_run_item_def RepoDownloader_download_zip_def Let_def
        split: sum.splits if_splits)
qed

lemma count_requests_simps [simp]:
  "count_requests (u @ v) = count_requests u + count_requests v"
  "count_requests [] = 0"
  "count_requests (ev # v) = (if is_count_request ev then 1 else 0) + count_requests v"
  by (simp_all add: count_requests_def)

lemma checked_get_count_requests:
  assumes "checked_get E rq w = (res, w')"
  shows "count_requests w' = count_requests w + (if is_count_request (Http rq (srv E w rq)) then 1 else 0)"
  using checked_get_shape [OF assms] by auto

lemma crawl_item_count_requests:
  assumes "crawl_item E item c w = (res, w')"
  shows "count_requests w' = count_requests w"
  using assms
  by (auto simp: crawl_item_def download_zip_def Let_def
      split: sum.splits prod.splits option.splits dest!: checked_get_count_requests)

lemma yield_crawl_items:
  assumes "yield_items (crawl_item E) xs c w = (res, w')"
  shows "\<exists>c'. res = Inr c' \<and> page_count_estimate c' = page_count_estimate c
       \<and> period_downloaded c' + period_failed c'
           = period_downloaded c + period_failed c + int (length xs)
       \<and> rows_written w' = rows_written w + length xs
       \<and> download_attempts w' = download_attempts w + length xs
       \<and> page_requests w' = page_requests w \<and> items_returned w' = items_returned w
       \<and> count_requests w' = count_requests w"
  using assms
proof (induction xs arbitrary: c w)
  case Nil
  then show ?case by auto
next
  case (Cons x xs)
  obtain r1 w1 where i: "crawl_item E x c w = (r1, w1)"
    by (cases "crawl_item E x c w")
  from crawl_item_tally(1) [OF i] obtain c1 where c1: "r1 = Inr c1"
    "page_count_estimate c1 = page_count_estimate c"
    "period_downloaded c1 + period_failed c1 = period_downloaded c + period_failed c + 1"
    by auto
  from Cons.prems i c1 have "yield_items (crawl_item E) xs c1 w1 = (res, w')"
    by simp
  from Cons.IH [OF this] c1 crawl_item_tally(2-5) [OF i] crawl_item_count_requests [OF i]
  show ?case by auto
qed

lemma checked_get_reply:
  assumes "checked_get E rq w = (Inr r, w')"
  shows "srv E w rq = Reply r \<and> succeeded r \<and> w' = w @ [Http rq (Reply r)]"
  using checked_get_shape [OF assms] by auto

lemma page_get_tally:
  assumes "checked_get E (Search p) w = (Inr r, w')" and "per_page p = PER_PAGE"
  shows "rows_written w' = rows_written w \<and> page_requests w' = page_requests w + 1
       \<and> items_returned w' = items_returned w + length (json_items r)
       \<and> count_requests w' = count_requests w"
  using checked_get_reply [OF assms(1)] assms(2) by (auto simp: PER_PAGE_def)

lemma remaining_crawl_pages:
  assumes "remaining_pages E params (crawl_item E) ps c w = (Inr c', w')"
    and "per_page params = PER_PAGE"
  shows "\<exists>k. items_returned w' = items_returned w + k \<and> rows_written w' = rows_written w + k
       \<and> period_downloaded c' + period_failed c'
           = period_downloaded c + period_failed c + int k
       \<and> page_count_estimate c' = page_count_estimate c
       \<and> page_requests w' = page_requests w + length ps
       \<and> count_requests w' = count_requests w"
  using assms
proof (induction ps arbitrary: c w)
  case Nil
  then show ?case by simp
next
  case (Cons p ps)
  let ?rq = "Search (params\<lparr>page := Some p\<rparr>)"
  from Cons.prems(1) obtain r w1 where g: "checked_get E ?rq w = (Inr r, w1)"
    by (auto split: prod.splits sum.splits)
  obtain r2 w2 where y: "yield_items (crawl_item E) (json_items r) c w1 = (r2, w2)"
    by (cases "yield_items (crawl_item E) (json_items r) c w1")
  from yield_crawl_items [OF y] obtain c2 where c2: "r2 = Inr c2"
    "page_count_estimate c2 = page_count_estimate c"
    "period_downloaded c2 + period_failed c2
       = period_downloaded c + period_failed c + int (length (json_items r))"
    "rows_written w2 = rows_written w1 + length (json_items r)"
    "page_requests w2 = page_requests w1" "items_returned w2 = items_returned w1"
    "count_requests w2 = count_requests w1"
    by auto
  from Cons.prems(1) g y c2(1)
  have rest: "remaining_pages E params (crawl_item E) ps c2 (w2 @ [Sleep DELAY_BETWEEN_PAGES])
                = (Inr c', w')"
    by simp
  from Cons.prems(2) have pp: "per_page (params\<lparr>page := Some p\<rparr>) = PER_PAGE"
    by simp
  from Cons.IH [OF rest Cons.prems(2)] obtain k where
    k: "items_returned w' = items_returned (w2 @ [Sleep DELAY_BETWEEN_PAGES]) + k"
       "rows_written w' = rows_written (w2 @ [Sleep DELAY_BETWEEN_PAGES]) + k"
       "period_downloaded c' + period_failed c'
           = period_downloaded c2 + period_failed c2 + int k"
       "page_count_estimate c' = page_count_estimate c2"
       "page_requests w' = page_requests (w2 @ [Sleep DELAY_BETWEEN_PAGES]) + length ps"
       "count_requests w' = count_requests (w2 @ [Sleep DELAY_BETWEEN_PAGES])"
    by blast
  from k c2 page_get_tally [OF g pp]
  show ?case
    by (intro exI [of _ "length (json_items r) + k"]) simp
qed

lemma length_from_2: "length [2..n] = nat (n - 1)"
  by simp

lemma iter_crawl_pages:
  assumes "iter_search_pages E s e (crawl_item E) c w = (Inr c', w')"
  shows "\<exists>k r. srv E w (Search (page_params s e)) = Reply r
       \<and> items_returned w' = items_returned w + k \<and> rows_written w' = rows_written w + k
       \<and> period_downloaded c' + period_failed c'
           = period_downloaded c + period_failed c + int k
       \<and> page_count_estimate c' = page_count_estimate c
       \<and> page_requests w' = page_requests w + nat (max 1 (page_count (json_total_count r)))
       \<and> count_requests w' = count_requests w"
proof -
  let ?params = "page_params s e"
  have pp: "per_page ?params = PER_PAGE"
    by (simp add: page_params_def)
  from assms obtain r w1 where g: "checked_get E (Search ?params) w = (Inr r, w1)"
    by (auto simp: iter_search_pages_def Let_def split: prod.splits sum.splits)
  obtain r2 w2 where y: "yield_items (crawl_item E) (json_items r) c w1 = (r2, w2)"
    by (cases "yield_items (crawl_item E) (json_items r) c w1")
  from yield_crawl_items [OF y] obtain c2 where c2: "r2 = Inr c2"
    "page_count_estimate c2 = page_count_estimate c"
    "period_downloaded c2 + period_failed c2
       = period_downloaded c + period_failed c + int (length (json_items r))"
    "rows_written w2 = rows_written w1 + length (json_items r)"
    "page_requests w2 = page_requests w1" "items_returned w2 = items_returned w1"
    "count_requests w2 = count_requests w1"
    by auto
  from assms g y c2(1)
  have rest: "remaining_pages E ?params (crawl_item E) [2..page_count (json_total_count r)] c2 w2
                = (Inr c', w')"
    by (simp add: iter_search_pages_def Let_def)
  from remaining_crawl_pages [OF rest pp] obtain k where
    k: "items_returned w' = items_returned w2 + k"
       "rows_written w' = rows_written w2 + k"
       "period_downloaded c' + period_failed c'
           = period_downloaded c2 + period_failed c2 + int k"
       "page_count_estimate c' = page_count_estimate c2"
       "page_requests w' = page_requests w2 + length [2..page_count (json_total_count r)]"
       "count_requests w' = count_requests w2"
    by blast
  have "1 + nat (page_count (json_total_count r) - 1) = nat (max 1 (page_count (json_total_count r)))"
    by simp
  with k c2 page_get_tally [OF g pp] checked_get_reply [OF g]
  show ?thesis
    by (intro exI [of _ "length (json_items r) + k"] exI [of _ r]) simp
qed


lemma page_items_other:
  "per_page p \<noteq> PER_PAGE \<Longrightarrow> page_items (Http (Search p) rp) = 0"
  by (cases rp) simp_all

lemma search_count_tally:
  assumes "search_count E s e w = (res, w')"
  shows "rows_written w' = rows_written w \<and> page_requests w' = page_requests w
       \<and> items_returned w' = items_returned w \<and> count_requests w' = count_requests w + 1"
proof -
  obtain r1 w1 where g: "checked_get E (Search (count_params s e)) w = (r1, w1)"
    by (cases "checked_get E (Search (count_params s e)) w")
  with assms have "w' = w1"
    by (auto simp: search_count_def split: sum.splits)
  moreover have "per_page (count_params s e) \<noteq> PER_PAGE" "per_page (count_params s e) = 1"
    by (simp_all add: count_params_def PER_PAGE_def)
  ultimately show ?thesis
    using checked_get_tally [OF g] checked_get_count_requests [OF g]
    by (simp add: page_items_other)
qed

lemma search_count_reports:
  assumes "search_count E s e w = (Inr tc, w')" and "reports_count E cnt"
  shows "tc = cnt (date_of s) (date_of e)"
proof -
  from assms(1) obtain r where g: "checked_get E (Search (count_params s e)) w = (Inr r, w')"
    and tc: "tc = json_total_count r"
    by (auto simp: search_count_def split: sum.splits prod.splits)
  from checked_get_reply [OF g] have "srv E w (Search (count_params s e)) = Reply r"
    by simp
  with assms(2) have "json_total_count r
      = cnt (q_from (count_params s e)) (q_to (count_params s e))"
    unfolding reports_count_def by blast
  with tc show ?thesis
    by (simp add: count_params_def)
qed

lemma split_tally:
  assumes "split_window_if_needed n E s e w = Some (res, w')"
  shows "rows_written w' = rows_written w \<and> page_requests w' = page_requests w
       \<and> items_returned w' = items_returned w"
  using assms
proof (induction n arbitrary: s e w res w')
  case 0
  then show ?case by simp
next
  case (Suc n)
  obtain r1 w1 where sc: "search_count E s e w = (r1, w1)"
    by (cases "search_count E s e w")
  note t1 = search_count_tally [OF sc]
  show ?case
  proof (cases r1)
    case (Inl ex)
    with Suc.prems sc t1 show ?thesis by auto
  next
    case tc: (Inr tc)
    show ?thesis
    proof (cases "tc \<le> MAX_RESULTS_PER_QUERY")
      case True
      with Suc.prems sc tc t1 show ?thesis by auto
    next
      case over: False
      show ?thesis
      proof (cases "dt_add s (td_half (e - s))")
        case (Inl ex)
        with Suc.prems sc tc over t1 show ?thesis by auto
      next
        case m: (Inr m)
        from Suc.prems sc tc over m obtain r2 w2 where
          l: "split_window_if_needed n E s m w1 = Some (r2, w2)"
          by (auto split: option.splits)
        note t2 = Suc.IH [OF l]
        show ?thesis
        proof (cases r2)
          case (Inl ex)
          with Suc.prems sc tc over m l have "w' = w2"
            by auto
          with t1 t2 show ?thesis by simp
        next
          case left: (Inr left)
          show ?thesis
          proof (cases "dt_add m (days 1)")
            case (Inl ex)
            with Suc.prems sc tc over m l left have "w' = w2"
              by auto
            with t1 t2 show ?thesis by simp
          next
            case rs: (Inr right_start)
            with Suc.prems sc tc over m l left obtain r3 where
              r: "split_window_if_needed n E right_start e w2 = Some (r3, w')"
              by (auto split: option.splits sum.splits)
            from Suc.IH [OF r] t1 t2 show ?thesis by simp
          qed
        qed
      qed
    qed
  qed
qed

lemma crawl_windows_counts:
  assumes "crawl_windows E ws c w = (Inr c', w')"
  shows "\<exists>k. items_returned w' = items_returned w + k \<and> rows_written w' = rows_written w + k
       \<and> period_downloaded c' + period_failed c'
           = period_downloaded c + period_failed c + int k"
  using assms
proof (induction ws arbitrary: c w)
  case Nil
  then show ?case by simp
next
  case (Cons win ws)
  obtain a b where win: "win = (a, b)" by (cases win)
  from Cons.prems win obtain tc w1 where sc: "search_count E a b w = (Inr tc, w1)"
    by (auto split: prod.splits sum.splits)
  let ?c1 = "c\<lparr>page_count_estimate := page_count_estimate c + page_count tc\<rparr>"
  from Cons.prems win sc obtain c2 w2 where
    it: "iter_search_pages E a b (crawl_item E) ?c1 w1 = (Inr c2, w2)"
    by (auto simp: Let_def split: prod.splits sum.splits)
  from Cons.prems win sc it have rest: "crawl_windows E ws c2 w2 = (Inr c', w')"
    by (simp add: Let_def)
  from iter_crawl_pages [OF it] obtain k1 where k1:
    "items_returned w2 = items_returned w1 + k1" "rows_written w2 = rows_written w1 + k1"
    "period_downloaded c2 + period_failed c2
       = period_downloaded c + period_failed c + int k1"
    by auto
  from Cons.IH [OF rest] obtain k2 where k2:
    "items_returned w' = items_returned w2 + k2" "rows_written w' = rows_written w2 + k2"
    "period_downloaded c' + period_failed c'
       = period_downloaded c2 + period_failed c2 + int k2"
    by auto
  from k1 k2 search_count_tally [OF sc] show ?case
    by (intro exI [of _ "k1 + k2"]) simp
qed

lemma crawl_windows_pages:
  assumes "crawl_windows E ws c w = (Inr c', w')" and "reports_count E cnt"
  shows "page_count_estimate c' = page_count_estimate c + sum_list (map (leaf_pages cnt) ws)
       \<and> int (page_requests w')
           = int (page_requests w) + sum_list (map (\<lambda>win. max 1 (leaf_pages cnt win)) ws)
       \<and> count_requests w' = count_requests w + length ws"
  using assms(1)
proof (induction ws arbitrary: c w)
  case Nil
  then show ?case by simp
next
  case (Cons win ws)
  obtain a b where win: "win = (a, b)" by (cases win)
  from Cons.prems win obtain tc w1 where sc: "search_count E a b w = (Inr tc, w1)"
    by (auto split: prod.splits sum.splits)
  have tc: "tc = cnt (date_of a) (date_of b)"
    using search_count_reports [OF sc assms(2)] .
  let ?c1 = "c\<lparr>page_count_estimate := page_count_estimate c + page_count tc\<rparr>"
  from Cons.prems win sc obtain c2 w2 where
    it: "iter_search_pages E a b (crawl_item E) ?c1 w1 = (Inr c2, w2)"
    by (auto simp: Let_def split: prod.splits sum.splits)
  from Cons.prems win sc it have rest: "crawl_windows E ws c2 w2 = (Inr c', w')"
    by (simp add: Let_def)
  from iter_crawl_pages [OF it] obtain r where r:
    "srv E w1 (Search (page_params a b)) = Reply r"
    "page_count_estimate c2 = page_count_estimate ?c1"
    "page_requests w2 = page_requests w1 + nat (max 1 (page_count (json_total_count r)))"
    "count_requests w2 = count_requests w1"
    by auto
  from r(1) assms(2) have "json_total_count r
      = cnt (q_from (page_params a b)) (q_to (page_params a b))"
    unfolding reports_count_def by blast
  then have "json_total_count r = cnt (date_of a) (date_of b)"
    by (simp add: page_params_def)
  with r tc Cons.IH [OF rest] search_count_tally [OF sc] win show ?case
    by (simp add: leaf_pages_def)
qed

lemma download_zip_shape:
  assumes "download_zip E fname branch path w = (res, w')"
  shows "\<exists>evs. w' = w @ evs \<and> rows_written evs = 0"
proof -
  obtain r1 w1 where g: "checked_get E (Download (zip_download_url fname branch)) w = (r1, w1)"
    by (cases "checked_get E (Download (zip_download_url fname branch)) w")
  from checked_get_shape [OF g] obtain sl where
    sl: "w1 = w @ Http (Download (zip_download_url fname branch))
                   (srv E w (Download (zip_download_url fname branch))) # sl"
      "sl = [] \<or> (\<exists>n. sl = [Sleep n])"
    by blast
  from assms g have "\<exists>sv. w' = w1 @ sv \<and> (sv = [] \<or> (\<exists>x. sv = [Save path x]))"
    by (auto simp: download_zip_def split: sum.splits option.splits)
  then obtain sv where sv: "w' = w1 @ sv" "sv = [] \<or> (\<exists>x. sv = [Save path x])"
    by blast
  let ?evs = "Http (Download (zip_download_url fname branch))
                (srv E w (Download (zip_download_url fname branch))) # sl @ sv"
  from sl sv have "w' = w @ ?evs" "rows_written ?evs = 0"
    by auto
  then show ?thesis by blast
qed

lemma crawl_item_row:
  "\<exists>c1 evs cells. crawl_item E item c w = (Inr c1, w @ evs @ [CsvRow cells])
      \<and> rows_written evs = 0
      \<and> ((cells ! 6 = ''downloaded'' \<and> period_downloaded c1 = period_downloaded c + 1
             \<and> period_failed c1 = period_failed c)
          \<or> (cells ! 6 = ''error'' \<and> period_downloaded c1 = period_downloaded c
             \<and> period_failed c1 = period_failed c + 1))"
proof -
  let ?branch = "case default_branch item of None \<Rightarrow> ''main'' | Some b \<Rightarrow> if b = [] then ''main'' else b"
  let ?path = "OUTPUT_DIR @ ''/'' @ replace_slash (full_name item) @ ''@'' @ ?branch @ ''.zip''"
  obtain r1 w1 where d: "download_zip E (full_name item) ?branch ?path w = (r1, w1)"
    by (cases "download_zip E (full_name item) ?branch ?path w")
  from download_zip_shape [OF d] obtain evs where evs: "w1 = w @ evs" "rows_written evs = 0"
    by blast
  show ?thesis
  proof (cases r1)
    case (Inl ex)
    with d evs show ?thesis
      by (simp add: crawl_item_def Let_def)
  next
    case (Inr u)
    with d evs show ?thesis
      by (simp add: crawl_item_def Let_def)
  qed
qed

lemma env4_period:
  "case crawl_period 1 env4 (mk_datetime 2020 1 1) (mk_datetime 2020 1 8) (0, 0) [] of
     Some (Inr (row, totals), w') \<Rightarrow>
       row_downloaded row = 1 \<and> row_failed row = 1 \<and> row_pages row = 1 \<and> rows_written w' = 2
   | _ \<Rightarrow> False"
  by code_simp

lemma crawl_period_parts:
  assumes "crawl_period n E current_start finish_date totals w = Some (Inr (row, totals'), w')"
  shows "\<exists>ws w1 c.
      split_window_if_needed n E current_start
          (min (current_start + days DATE_STEP_DAYS) finish_date) w = Some (Inr ws, w1)
      \<and> crawl_windows E ws
           \<lparr>period_downloaded = 0, period_failed = 0, page_count_estimate = 0,
            total_downloaded = fst totals, total_failed = snd totals\<rparr> w1 = (Inr c, w')
      \<and> row_downloaded row = period_downloaded c \<and> row_failed row = period_failed c
      \<and> row_pages row = page_count_estimate c"
proof -
  from assms obtain step_end where
    se: "dt_add current_start (days DATE_STEP_DAYS) = Inr step_end"
    by (cases "dt_add current_start (days DATE_STEP_DAYS)") (auto simp: crawl_period_def)
  then have eq: "step_end = current_start + days DATE_STEP_DAYS"
    by (auto simp: dt_add_def split: if_splits)
  from assms se show ?thesis
    unfolding eq [symmetric]
    by (auto simp: crawl_period_def Let_def split: option.splits prod.splits sum.splits)
qed

section \<open>The orchestrator\<close>

text \<open>
  C4 (one record and one counter per item).  When the processing of a top-level window by
  \<^verbatim>\<open>crawl\<close> completes, the number of rows it has written to the sink and the sum
  of the two counters of its summary row both equal the number of items that the pages of
  results returned in that window.  And the processing of one item always completes,
  writes one row, the last thing it does, and either the row says
  \<^verbatim>\<open>downloaded\<close> and \<^verbatim>\<open>period_downloaded\<close> alone has grown by one, or the row
  says \<^verbatim>\<open>error\<close> and \<^verbatim>\<open>period_failed\<close> alone has grown by one.
\<close>

theorem crawl_period_counts_items:
  assumes "crawl_period n E current_start finish_date totals w = Some (Inr (row, totals'), w')"
  shows "(\<exists>k. items_returned w' = items_returned w + k \<and> rows_written w' = rows_written w + k
            \<and> row_downloaded row + row_failed row = int k)
     \<and> (\<exists>c1 evs cells. crawl_item E item c w0 = (Inr c1, w0 @ evs @ [CsvRow cells])
          \<and> rows_written evs = 0
          \<and> ((cells ! 6 = ''downloaded'' \<and> period_downloaded c1 = period_downloaded c + 1
                 \<and> period_failed c1 = period_failed c)
              \<or> (cells ! 6 = ''error'' \<and> period_downloaded c1 = period_downloaded c
                 \<and> period_failed c1 = period_failed c + 1)))"
proof -
  let ?ce = "min (current_start + days DATE_STEP_DAYS) finish_date"
  let ?c0 = "\<lparr>period_downloaded = 0, period_failed = 0, page_count_estimate = 0,
               total_downloaded = fst totals, total_failed = snd totals\<rparr>"
  from crawl_period_parts [OF assms] obtain ws w1 c2 where
    sp: "split_window_if_needed n E current_start ?ce w = Some (Inr ws, w1)"
    and cw: "crawl_windows E ws ?c0 w1 = (Inr c2, w')"
    and row: "row_downloaded row = period_downloaded c2" "row_failed row = period_failed c2"
    by blast
  from crawl_windows_counts [OF cw] split_tally [OF sp] row
  have "\<exists>k. items_returned w' = items_returned w + k \<and> rows_written w' = rows_written w + k
            \<and> row_downloaded row + row_failed row = int k"
    by simp
  with crawl_item_row [of E item c w0] show ?thesis
    by blast
qed

theorem crawl_period_counts_items_witness:
  "\<exists>row totals' w'.
     crawl_period 1 env4 (mk_datetime 2020 1 1) (mk_datetime 2020 1 8) (0, 0) []
       = Some (Inr (row, totals'), w')
     \<and> row_downloaded row = 1 \<and> row_failed row = 1 \<and> rows_written w' = 2
     \<and> (\<exists>k. items_returned w' = items_returned [] + k \<and> rows_written w' = rows_written [] + k
            \<and> row_downloaded row + row_failed row = int k)
     \<and> (\<exists>c1 evs cells. crawl_item env4 item2 counters0 [] = (Inr c1, [] @ evs @ [CsvRow cells])
          \<and> rows_written evs = 0
          \<and> ((cells ! 6 = ''downloaded'' \<and> period_downloaded c1 = period_downloaded counters0 + 1
                 \<and> period_failed c1 = period_failed counters0)
              \<or> (cells ! 6 = ''error'' \<and> period_downloaded c1 = period_downloaded counters0
                 \<and> period_failed c1 = period_failed counters0 + 1)))"
proof -
  let ?X = "crawl_period 1 env4 (mk_datetime 2020 1 1) (mk_datetime 2020 1 8) (0, 0) []"
  from env4_period obtain r w' where 1: "?X = Some (r, w')"
    by (cases ?X) auto
  with env4_period obtain row totals' where 2: "r = Inr (row, totals')"
    by (cases r) auto
  from env4_period 1 2 have
    ev: "crawl_period 1 env4 (mk_datetime 2020 1 1) (mk_datetime 2020 1 8) (0, 0) []
           = Some (Inr (row, totals'), w')"
    and v: "row_downloaded row = 1" "row_failed row = 1" "rows_written w' = 2"
    by simp_all
  from crawl_period_counts_items [OF ev, of item2 counters0 "[]"] ev v show ?thesis
    by blast
qed

lemma reports_count_env_items: "reports_count (env_items n pg) (\<lambda>a b. n)"
  by (simp add: reports_count_def env_items_def ok_response_def json_total_count_def)

text \<open>
  C10, as amended (the pages figure of a summary row).  When every answered search reports
  the count \<open>cnt\<close> of its days and the processing of a top-level window completes, the
  figure recorded is the sum over the leaves of \<^verbatim>\<open>ceil(min(count, 1000) / 100)\<close>, one
  count query is made per leaf beyond those of the partitioner, and the requests for a
  page of results made in that window number, per leaf, the larger of one and the leaf's
  figure: the iterator always makes its first request.  The figure is the number of pages
  fetched when every leaf reports at least one result.
\<close>

theorem crawl_period_pages:
  assumes "reports_count E cnt"
    and "crawl_period n E current_start finish_date totals w = Some (Inr (row, totals'), w')"
  shows "\<exists>ws w1.
      split_window_if_needed n E current_start
          (min (current_start + days DATE_STEP_DAYS) finish_date) w = Some (Inr ws, w1)
      \<and> row_pages row = sum_list (map (leaf_pages cnt) ws)
      \<and> count_requests w' = count_requests w1 + length ws
      \<and> int (page_requests w')
           = int (page_requests w) + sum_list (map (\<lambda>win. max 1 (leaf_pages cnt win)) ws)"
proof -
  let ?ce = "min (current_start + days DATE_STEP_DAYS) finish_date"
  let ?c0 = "\<lparr>period_downloaded = 0, period_failed = 0, page_count_estimate = 0,
               total_downloaded = fst totals, total_failed = snd totals\<rparr>"
  from crawl_period_parts [OF assms(2)] obtain ws w1 c where
    sp: "split_window_if_needed n E current_start ?ce w = Some (Inr ws, w1)"
    and cw: "crawl_windows E ws ?c0 w1 = (Inr c, w')"
    and row: "row_pages row = page_count_estimate c"
    by blast
  from crawl_windows_pages [OF cw assms(1)] split_tally [OF sp] row sp show ?thesis
    by simp
qed

theorem crawl_period_pages_witness:
  "\<exists>row totals' w'.
     reports_count env4 (\<lambda>a b. 2)
     \<and> crawl_period 1 env4 (mk_datetime 2020 1 1) (mk_datetime 2020 1 8) (0, 0) []
       = Some (Inr (row, totals'), w')
     \<and> row_pages row = 1
     \<and> (\<exists>ws w1.
          split_window_if_needed 1 env4 (mk_datetime 2020 1 1)
            (min (mk_datetime 2020 1 1 + days DATE_STEP_DAYS) (mk_datetime 2020 1 8)) []
            = Some (Inr ws, w1)
          \<and> row_pages row = sum_list (map (leaf_pages (\<lambda>a b. 2)) ws)
          \<and> count_requests w' = count_requests w1 + length ws
          \<and> int (page_requests w')
               = int (page_requests []) + sum_list (map (\<lambda>win. max 1 (leaf_pages (\<lambda>a b. 2) win)) ws))"
proof -
  let ?X = "crawl_period 1 env4 (mk_datetime 2020 1 1) (mk_datetime 2020 1 8) (0, 0) []"
  from env4_period obtain r w' where 1: "?X = Some (r, w')"
    by (cases ?X) auto
  with env4_period obtain row totals' where 2: "r = Inr (row, totals')"
    by (cases r) auto
  from env4_period 1 2 have
    ev: "crawl_period 1 env4 (mk_datetime 2020 1 1) (mk_datetime 2020 1 8) (0, 0) []
           = Some (Inr (row, totals'), w')"
    and v: "row_pages row = 1"
    by simp_all
  have rc: "reports_count env4 (\<lambda>a b. 2)"
    unfolding env4_def by (rule reports_count_env_items)
  from crawl_period_pages [OF rc ev] rc ev v show ?thesis
    by blast
qed

text \<open>
  C10 as it is stated fails on a window that reports no result: the figure recorded for
  2020-01-01..2020-01-08 is 0, and one page of results has been requested.
\<close>

theorem empty_window_page_figure:
  "crawl_period 1 (fixed_env (\<lambda>a b. 0)) (mk_datetime 2020 1 1) (mk_datetime 2020 1 8) (0, 0) []
     = Some (Inr (\<lparr>row_start = ymd2ord 2020 1 1, row_end = ymd2ord 2020 1 8,
                    row_downloaded = 0, row_pages = 0, row_failed = 0\<rparr>, 0, 0),
         [Http (Search (count_params (mk_datetime 2020 1 1) (mk_datetime 2020 1 8)))
            (Reply (ok_response 0 [])),
          Http (Search (count_params (mk_datetime 2020 1 1) (mk_datetime 2020 1 8)))
            (Reply (ok_response 0 [])),
          Http (Search (page_params (mk_datetime 2020 1 1) (mk_datetime 2020 1 8)))
            (Reply (ok_response 0 []))])
   \<and> page_requests
        [Http (Search (count_params (mk_datetime 2020 1 1) (mk_datetime 2020 1 8)))
            (Reply (ok_response 0 [])),
          Http (Search (count_params (mk_datetime 2020 1 1) (mk_datetime 2020 1 8)))
            (Reply (ok_response 0 [])),
          Http (Search (page_params (mk_datetime 2020 1 1) (mk_datetime 2020 1 8)))
            (Reply (ok_response 0 []))] = 1"
  by code_simp

section \<open>The page iterator\<close>

lemma yield_note_items:
  "yield_items note_item xs acc w = (Inr (acc @ xs), w @ map Yielded xs)"
  by (induction xs arbitrary: acc w) (simp_all add: note_item_def)

lemma remaining_noted:
  assumes "remaining_pages E params note_item ps acc w = (Inr ys, w')"
  shows "\<exists>rs. length rs = length ps \<and> w' = w @ concat (map2 (later_page params) ps rs)
           \<and> ys = acc @ concat (map json_items rs)"
  using assms
proof (induction ps arbitrary: acc w)
  case Nil
  then show ?case by simp
next
  case (Cons p ps)
  let ?rq = "Search (params\<lparr>page := Some p\<rparr>)"
  from Cons.prems obtain r w1 where g: "checked_get E ?rq w = (Inr r, w1)"
    by (auto split: prod.splits sum.splits)
  from checked_get_reply [OF g] have w1: "w1 = w @ [Http ?rq (Reply r)]"
    by simp
  from Cons.prems g have
    "remaining_pages E params note_item ps (acc @ json_items r)
       ((w1 @ map Yielded (json_items r)) @ [Sleep DELAY_BETWEEN_PAGES]) = (Inr ys, w')"
    by (simp add: yield_note_items)
  from Cons.IH [OF this] obtain rs where rs: "length rs = length ps"
    "w' = ((w1 @ map Yielded (json_items r)) @ [Sleep DELAY_BETWEEN_PAGES])
            @ concat (map2 (later_page params) ps rs)"
    "ys = (acc @ json_items r) @ concat (map json_items rs)"
    by blast
  from rs w1 show ?case
    by (intro exI [of _ "r # rs"]) (simp add: later_page_def)
qed

lemma page_requests_Yielded: "page_requests (map Yielded xs) = 0"
  by (induction xs) simp_all

lemma later_pages_requests:
  "length rs = length ps \<Longrightarrow> per_page params = PER_PAGE
   \<Longrightarrow> page_requests (concat (map2 (later_page params) ps rs)) = length ps"
  by (induction ps rs rule: list_induct2')
    (simp_all add: later_page_def page_requests_Yielded)

lemma env7_pages:
  "case iter_search_pages env7 (mk_datetime 2020 1 1) (mk_datetime 2020 1 8) note_item [] [] of
     (Inr ys, w') \<Rightarrow> ys = [item1, item2] \<and> page_requests w' = 3
   | _ \<Rightarrow> False"
  by code_simp

text \<open>
  C7, as amended (the pages the iterator fetches).  Run to its end under a loop body that
  notes each item as it is given, \<^verbatim>\<open>iter_search_pages\<close> leaves this history: the
  request without page number, whose answer reports the count \<open>n\<close>; the items of that
  answer, in its order; and then, for each page from 2 to
  \<^verbatim>\<open>ceil(min(n, 1000) / 100)\<close> in ascending order, one request for that page, the
  items of its answer in its order, and the delay of 5 seconds.  The items are those of the
  answers, nothing added, dropped or moved.  The requests number the larger of one and the
  pages computed: the first request is made also when \<open>n\<close> is 0, and no delay stands
  between page 1 and page 2.
\<close>

theorem iter_search_pages_trace:
  assumes "iter_search_pages E s e note_item [] w = (Inr ys, w')"
  shows "\<exists>r1 rs. srv E w (Search (page_params s e)) = Reply r1
       \<and> length rs = length [2..page_count (json_total_count r1)]
       \<and> w' = w @ first_page (page_params s e) r1
                 @ concat (map2 (later_page (page_params s e))
                             [2..page_count (json_total_count r1)] rs)
       \<and> ys = json_items r1 @ concat (map json_items rs)
       \<and> page_requests w' = page_requests w + nat (max 1 (page_count (json_total_count r1)))"
proof -
  let ?params = "page_params s e"
  have pp: "per_page ?params = PER_PAGE"
    by (simp add: page_params_def)
  from assms obtain r1 w1 where g: "checked_get E (Search ?params) w = (Inr r1, w1)"
    by (auto simp: iter_search_pages_def Let_def split: prod.splits sum.splits)
  note rep = checked_get_reply [OF g]
  let ?ps = "[2..page_count (json_total_count r1)]"
  from assms g have
    "remaining_pages E ?params note_item ?ps (json_items r1) (w1 @ map Yielded (json_items r1))
       = (Inr ys, w')"
    by (simp add: iter_search_pages_def Let_def yield_note_items)
  from remaining_noted [OF this] obtain rs where rs: "length rs = length ?ps"
    "w' = (w1 @ map Yielded (json_items r1)) @ concat (map2 (later_page ?params) ?ps rs)"
    "ys = json_items r1 @ concat (map json_items rs)"
    by blast
  from rs(2) rep have w': "w' = w @ first_page ?params r1 @ concat (map2 (later_page ?params) ?ps rs)"
    by (simp add: first_page_def)
  have "1 + nat (page_count (json_total_count r1) - 1)
          = nat (max 1 (page_count (json_total_count r1)))"
    by simp
  with w' later_pages_requests [OF rs(1) pp] pp
  have "page_requests w' = page_requests w + nat (max 1 (page_count (json_total_count r1)))"
    by (simp add: first_page_def page_requests_Yielded)
  with rs(1,3) w' rep show ?thesis
    by blast
qed

theorem iter_search_pages_trace_witness:
  "\<exists>ys w'.
     iter_search_pages env7 (mk_datetime 2020 1 1) (mk_datetime 2020 1 8) note_item [] []
       = (Inr ys, w')
     \<and> ys = [item1, item2] \<and> page_requests w' = 3
     \<and> (\<exists>r1 rs. srv env7 [] (Search (page_params (mk_datetime 2020 1 1) (mk_datetime 2020 1 8)))
                    = Reply r1
           \<and> length rs = length [2..page_count (json_total_count r1)]
           \<and> w' = [] @ first_page (page_params (mk_datetime 2020 1 1) (mk_datetime 2020 1 8)) r1
                 @ concat (map2 (later_page (page_params (mk_datetime 2020 1 1) (mk_datetime 2020 1 8)))
                             [2..page_count (json_total_count r1)] rs)
           \<and> ys = json_items r1 @ concat (map json_items rs)
           \<and> page_requests w' = page_requests [] + nat (max 1 (page_count (json_total_count r1))))"
proof -
  let ?X = "iter_search_pages env7 (mk_datetime 2020 1 1) (mk_datetime 2020 1 8) note_item [] []"
  obtain r w' where 1: "?X = (r, w')"
    by (cases ?X)
  with env7_pages obtain ys where 2: "r = Inr ys"
    by (cases r) auto
  from env7_pages 1 2 have ev: "?X = (Inr ys, w')" and v: "ys = [item1, item2]" "page_requests w' = 3"
    by simp_all
  from iter_search_pages_trace [OF ev] ev v show ?thesis
    by blast
qed

text \<open>
  C7 as it is stated fails on a window that reports no result: the pages computed are 0
  and the iterator has fetched one.
\<close>

theorem empty_window_one_page:
  "iter_search_pages (fixed_env (\<lambda>a b. 0)) (mk_datetime 2020 1 1) (mk_datetime 2020 1 8)
       note_item [] []
     = (Inr [], [Http (Search (page_params (mk_datetime 2020 1 1) (mk_datetime 2020 1 8)))
                   (Reply (ok_response 0 []))])
   \<and> page_count 0 = 0
   \<and> page_requests [Http (Search (page_params (mk_datetime 2020 1 1) (mk_datetime 2020 1 8)))
                   (Reply (ok_response 0 []))] = 1"
  by code_simp

lemma env7_history:
  "snd (iter_search_pages env7 (mk_datetime 2020 1 1) (mk_datetime 2020 1 8) note_item [] [])
     = [Http (Search (page_params (mk_datetime 2020 1 1) (mk_datetime 2020 1 8)))
          (Reply (ok_response 250 [item1])),
        Yielded item1,
        Http (Search ((page_params (mk_datetime 2020 1 1) (mk_datetime 2020 1 8))\<lparr>page := Some 2\<rparr>))
          (Reply (ok_response 250 [item2])),
        Yielded item2,
        Sleep 5,
        Http (Search ((page_params (mk_datetime 2020 1 1) (mk_datetime 2020 1 8))\<lparr>page := Some 3\<rparr>))
          (Reply (ok_response 250 [])),
        Sleep 5]"
  by code_simp

section \<open>Which items are downloaded\<close>

text \<open>
  C5, as amended (the topic check).  \<^verbatim>\<open>crawl\<close> attempts the download of every item
  it is given, whatever its topics.  \<^verbatim>\<open>Pipeline.run\<close> attempts the download of an
  item unless its list of topics is present, not empty and without
  \<^verbatim>\<open>microservices\<close>; an item without topic data is downloaded.
\<close>

theorem download_policy:
  "download_attempts (snd (crawl_item E item c w)) = download_attempts w + 1
   \<and> download_attempts (snd (Pipeline_run_item E output_dir item rc w))
       = download_attempts w
          + (if item_topics item \<noteq> [] \<and> ''microservices'' \<notin> set (item_topics item)
             then 0 else 1)"
proof -
  obtain r1 w1 where 1: "crawl_item E item c w = (r1, w1)"
    by (cases "crawl_item E item c w")
  obtain r2 w2 where 2: "Pipeline_run_item E output_dir item rc w = (r2, w2)"
    by (cases "Pipeline_run_item E output_dir item rc w")
  from crawl_item_tally(3) [OF 1] Pipeline_run_item_tally(2) [OF 2] 1 2 show ?thesis
    by simp
qed

text \<open>
  C5 as it is stated fails in both: \<^verbatim>\<open>crawl\<close> downloads an item whose only topic
  is \<^verbatim>\<open>java\<close>, and \<^verbatim>\<open>Pipeline.run\<close> downloads an item without topic data.
\<close>

theorem untagged_item_is_downloaded:
  "fst (crawl_item (fixed_env (\<lambda>a b. 0)) item1 counters0 [])
     = Inr (counters0\<lparr>period_downloaded := 1, total_downloaded := 1\<rparr>)
   \<and> download_attempts (snd (crawl_item (fixed_env (\<lambda>a b. 0)) item1 counters0 [])) = 1
   \<and> ''microservices'' \<notin> set (item_topics item1)
   \<and> fst (Pipeline_run_item (fixed_env (\<lambda>a b. 0)) ''out'' item2 run_counters0 [])
     = Inr (run_counters0\<lparr>run_downloaded := 1, total_processed := 1\<rparr>)
   \<and> ''microservices'' \<notin> set (item_topics item2)"
  by code_simp

section \<open>What a failed download does\<close>

lemma yield_run_items:
  "\<exists>c' w'. yield_items (Pipeline_run_item E output_dir) its rc w = (Inr c', w')"
proof (induction its arbitrary: rc w)
  case Nil
  show ?case by simp
next
  case (Cons x xs)
  obtain r1 w1 where i: "Pipeline_run_item E output_dir x rc w = (r1, w1)"
    by (cases "Pipeline_run_item E output_dir x rc w")
  from Pipeline_run_item_tally(1) [OF i] obtain c1 where "r1 = Inr c1"
    by blast
  with i Cons.IH [of c1 w1] show ?case by simp
qed

lemma download_zip_raises_iff:
  "(\<exists>ex. fst (download_zip E fname branch path w) = Inl ex)
     = (fetch_failure E (zip_download_url fname branch) path w \<noteq> None)"
  by (auto simp: download_zip_def checked_get_def session_get_def rate_limit_sleep_def
      raise_for_status_def fetch_failure_def Let_def
      split: reply.splits option.splits if_splits)

lemma crawl_item_outcome:
  "\<exists>w1. crawl_item E item c w
     = (Inr (case fetch_failure E (zip_download_url (full_name item) (crawl_branch item))
                   (crawl_zip_path item) w of
               None \<Rightarrow> c\<lparr>period_downloaded := period_downloaded c + 1,
                          total_downloaded := total_downloaded c + 1\<rparr>
             | Some ex \<Rightarrow> c\<lparr>period_failed := period_failed c + 1,
                             total_failed := total_failed c + 1\<rparr>),
        w1 @ [CsvRow [owner_login item, name item, full_name item, clone_url item,
                      crawl_branch item, join '';'' (item_topics item),
                      (case fetch_failure E (zip_download_url (full_name item) (crawl_branch item))
                              (crawl_zip_path item) w of
                         None \<Rightarrow> ''downloaded'' | Some ex \<Rightarrow> ''error''),
                      crawl_zip_path item]])"
proof -
  let ?d = "download_zip E (full_name item) (crawl_branch item) (crawl_zip_path item) w"
  let ?f = "fetch_failure E (zip_download_url (full_name item) (crawl_branch item))
              (crawl_zip_path item) w"
  obtain r1 w1 where d: "?d = (r1, w1)"
    by (cases ?d)
  show ?thesis
  proof (cases r1)
    case (Inl ex)
    with d download_zip_raises_iff [of E "full_name item" "crawl_branch item" "crawl_zip_path item" w]
    obtain e where "?f = Some e"
      by auto
    with d Inl show ?thesis
      by (simp add: crawl_item_def Let_def crawl_branch_def crawl_zip_path_def item_topics_def)
  next
    case (Inr u)
    with d download_zip_raises_iff [of E "full_name item" "crawl_branch item" "crawl_zip_path item" w]
    have "?f = None"
      by auto
    with d Inr show ?thesis
      by (simp add: crawl_item_def Let_def crawl_branch_def crawl_zip_path_def item_topics_def)
  qed
qed

text \<open>
  C6, as amended (what a fetch that fails does).  \<^verbatim>\<open>RepoDownloader.download_zip\<close>
  never raises: when the request raises, when the answer has an error status, or when
  storing the body raises, its outcome is \<open>False\<close> with the text \<^verbatim>\<open>error: \<close>
  followed by the message of the exception; otherwise it is \<open>True\<close> with
  \<^verbatim>\<open>downloaded\<close>.  The \<^verbatim>\<open>download_zip\<close> of crawler\_refactored.py raises to
  its caller exactly when the fetch fails; \<^verbatim>\<open>crawl\<close> catches what it raises, counts
  the item as failed and writes its row with \<^verbatim>\<open>error\<close> alone as status, and counts
  it as downloaded and writes \<^verbatim>\<open>downloaded\<close> when the fetch succeeds.  In both
  crawlers the loop over the items reaches the end of any list of items, whatever the
  downloads do, and \<^verbatim>\<open>crawl\<close> has then written a row for each.
\<close>

theorem fetch_outcomes:
  "fst (RepoDownloader_download_zip E output_dir item w)
     = Inr (case fetch_failure E (zip_url item) (zip_filename output_dir item) w of
              None \<Rightarrow> (True, ''downloaded'')
            | Some ex \<Rightarrow> (False, ''error: '' @ exn_str ex))
   \<and> ((\<exists>ex. fst (download_zip E fname branch path w) = Inl ex)
        = (fetch_failure E (zip_download_url fname branch) path w \<noteq> None))
   \<and> (\<exists>w1. crawl_item E item c w
        = (Inr (case fetch_failure E (zip_download_url (full_name item) (crawl_branch item))
                      (crawl_zip_path item) w of
                  None \<Rightarrow> c\<lparr>period_downloaded := period_downloaded c + 1,
                             total_downloaded := total_downloaded c + 1\<rparr>
                | Some ex \<Rightarrow> c\<lparr>period_failed := period_failed c + 1,
                                total_failed := total_failed c + 1\<rparr>),
           w1 @ [CsvRow [owner_login item, name item, full_name item, clone_url item,
                         crawl_branch item, join '';'' (item_topics item),
                         (case fetch_failure E
                                 (zip_download_url (full_name item) (crawl_branch item))
                                 (crawl_zip_path item) w of
                            None \<Rightarrow> ''downloaded'' | Some ex \<Rightarrow> ''error''),
                         crawl_zip_path item]]))
   \<and> (\<exists>c' w'. yield_items (Pipeline_run_item E output_dir) its rc w = (Inr c', w'))
   \<and> (\<exists>c' w'. yield_items (crawl_item E) its c w = (Inr c', w')
         \<and> rows_written w' = rows_written w + length its)"
proof (intro conjI)
  show "fst (RepoDownloader_download_zip E output_dir item w)
     = Inr (case fetch_failure E (zip_url item) (zip_filename output_dir item) w of
              None \<Rightarrow> (True, ''downloaded'')
            | Some ex \<Rightarrow> (False, ''error: '' @ exn_str ex))"
    by (simp add: RepoDownloader_download_zip_def download_attempt_def session_get_def
        raise_for_status_def fetch_failure_def Let_def split: reply.splits option.splits)
  show "(\<exists>ex. fst (download_zip E fname branch path w) = Inl ex)
        = (fetch_failure E (zip_download_url fname branch) path w \<noteq> None)"
    by (rule download_zip_raises_iff)
  show "\<exists>c' w'. yield_items (Pipeline_run_item E output_dir) its rc w = (Inr c', w')"
    by (rule yield_run_items)
  obtain r1 w1 where y: "yield_items (crawl_item E) its c w = (r1, w1)"
    by (cases "yield_items (crawl_item E) its c w")
  from yield_crawl_items [OF y] y
  show "\<exists>c' w'. yield_items (crawl_item E) its c w = (Inr c', w')
         \<and> rows_written w' = rows_written w + length its"
    by auto
qed (rule crawl_item_outcome)

text \<open>
  C6 as it is stated fails in crawler\_refactored.py: \<^verbatim>\<open>download_zip\<close> raises the
  HTTPError of an archive that is not found to its caller, and the row \<^verbatim>\<open>crawl\<close>
  writes for the item has the status \<^verbatim>\<open>error\<close> without the message.
\<close>

theorem failed_download_in_crawl:
  "fst (download_zip env4 (full_name item2) (crawl_branch item2) (crawl_zip_path item2) [])
     = Inl (PyExn ''HTTPError'' ''404 Client Error: Not Found'')
   \<and> crawl_item env4 item2 counters0 []
     = (Inr (counters0\<lparr>period_failed := 1, total_failed := 1\<rparr>),
        [Http (Download (zip_download_url ''bob/mesh'' ''trunk''))
           (Reply ((ok_response 0 [])
              \<lparr>status_code := 404, error_text := ''404 Client Error: Not Found''\<rparr>)),
         CsvRow [''bob'', ''mesh'', ''bob/mesh'', ''https://github.com/bob/mesh.git'',
                 ''trunk'', [], ''error'', ''C:/Thesis V3/Output/bob#mesh@trunk.zip'']])"
  by code_simp

end
